theory Spec2Isabelle
  imports Complex_Main
begin

section \<open>API objects: untyped nested mappings\<close>

text \<open>
  The controller receives Kubernetes objects as decoded JSON: nested Python dicts, lists,
  strings, numbers, booleans and \<open>None\<close>. A dict is an association list read with
  \<open>map_of\<close>; \<open>JNull\<close> is Python's \<open>None\<close>.
\<close>

datatype json =
    JNull
  | JBool bool
  | JNum real
  | JStr string
  | JList "json list"
  | JDict "(string \<times> json) list"

text \<open>
  The exceptions that occur in the controller. \<open>Exception s\<close> stands for any other
  class derived from Python's \<open>Exception\<close> (an API error, a \<open>ValueError\<close>, ...).
  \<open>KeyboardInterrupt\<close>, \<open>SystemExit\<close> and \<open>GeneratorExit\<close> derive from
  \<open>BaseException\<close> only.
\<close>

datatype py_exception =
    CancelledError
  | KeyboardInterrupt
  | SystemExit
  | GeneratorExit
  | KeyError
  | TypeError
  | AttributeError
  | Exception string

text \<open>
  \<open>isinstance(e, Exception)\<close>. \<open>asyncio.CancelledError\<close> derives from
  \<open>BaseException\<close> since Python 3.8 and from \<open>Exception\<close> before; the handler
  of \<open>_handle_request\<close> tests for it first, so its value here is never consulted there.
\<close>

fun isinstance_Exception :: "py_exception \<Rightarrow> bool" where
  "isinstance_Exception CancelledError = False"
| "isinstance_Exception KeyboardInterrupt = False"
| "isinstance_Exception SystemExit = False"
| "isinstance_Exception GeneratorExit = False"
| "isinstance_Exception KeyError = True"
| "isinstance_Exception TypeError = True"
| "isinstance_Exception AttributeError = True"
| "isinstance_Exception (Exception s) = True"

text \<open>\<open>v[k]\<close> for a string key: only a dict can be subscripted by a string.\<close>

fun py_getitem :: "json \<Rightarrow> string \<Rightarrow> py_exception + json" where
  "py_getitem (JDict kvs) k = (case map_of kvs k of None \<Rightarrow> Inl KeyError | Some v \<Rightarrow> Inr v)"
| "py_getitem JNull k = Inl TypeError"
| "py_getitem (JBool b) k = Inl TypeError"
| "py_getitem (JNum x) k = Inl TypeError"
| "py_getitem (JStr s) k = Inl TypeError"
| "py_getitem (JList xs) k = Inl TypeError"

text \<open>\<open>v.get(k, default)\<close>: a method of dicts; no other JSON value has it.\<close>

fun py_get :: "json \<Rightarrow> string \<Rightarrow> json \<Rightarrow> py_exception + json" where
  "py_get (JDict kvs) k d = Inr (case map_of kvs k of None \<Rightarrow> d | Some v \<Rightarrow> v)"
| "py_get JNull k d = Inl AttributeError"
| "py_get (JBool b) k d = Inl AttributeError"
| "py_get (JNum x) k d = Inl AttributeError"
| "py_get (JStr s) k d = Inl AttributeError"
| "py_get (JList xs) k d = Inl AttributeError"

text \<open>
  \<open>for ref in v\<close>: a list yields its elements, a dict its keys, a string its
  characters; the other values are not iterable.
\<close>

fun py_iter :: "json \<Rightarrow> py_exception + json list" where
  "py_iter (JList xs) = Inr xs"
| "py_iter (JDict kvs) = Inr (map (\<lambda>kv. JStr (fst kv)) kvs)"
| "py_iter (JStr s) = Inr (map (\<lambda>c. JStr [c]) s)"
| "py_iter JNull = Inl TypeError"
| "py_iter (JBool b) = Inl TypeError"
| "py_iter (JNum x) = Inl TypeError"

text \<open>Truth value of an object in a condition.\<close>

fun py_truthy :: "json \<Rightarrow> bool" where
  "py_truthy JNull = False"
| "py_truthy (JBool b) = b"
| "py_truthy (JNum x) = (x \<noteq> 0)"
| "py_truthy (JStr s) = (s \<noteq> [])"
| "py_truthy (JList xs) = (xs \<noteq> [])"
| "py_truthy (JDict kvs) = (kvs \<noteq> [])"

text \<open>\<open>v == s\<close> for a Python string \<open>s\<close>: only an equal string compares equal.\<close>

definition py_eq_str :: "json \<Rightarrow> string \<Rightarrow> bool" where
  "py_eq_str v s = (v = JStr s)"

section \<open>Request and Result\<close>

text \<open>
  Modelled from the spec: the class \<open>Request\<close> of \<open>runtime/reconcile.py\<close>, which
  is not among the sources. A request holds the name and the namespace it is built with
  (the namespace may be \<open>None\<close>, here \<open>JNull\<close>) and an id, a process-local
  monotonically increasing integer assigned at construction. The constructor therefore
  takes the next free id and returns it advanced. The fields hold whatever objects the
  caller passes: Python checks no annotation.
\<close>

record request =
  name :: json
  namespace :: json
  request_id :: nat

definition Request :: "json \<Rightarrow> json \<Rightarrow> nat \<Rightarrow> request \<times> nat" where
  "Request n ns next_id = (\<lparr>name = n, namespace = ns, request_id = next_id\<rparr>, Suc next_id)"

text \<open>
  Modelled from the spec: the class \<open>Result\<close> of \<open>runtime/reconcile.py\<close>,
  \<open>{requeue: bool, requeue_after: duration?}\<close>, a duration being a number of seconds.
  \<open>Result()\<close> is \<open>{requeue: false}\<close> with no \<open>requeue_after\<close>;
  \<open>Result(True)\<close> sets the first field.
\<close>

record result =
  requeue :: bool
  requeue_after :: "real option"

definition Result :: "bool \<Rightarrow> real option \<Rightarrow> result" where
  "Result rq ra = \<lparr>requeue = rq, requeue_after = ra\<rparr>"

definition Result_default :: result where
  "Result_default = Result False None"

text \<open>What a call of the reconcile function ends with: a value or an exception.\<close>

datatype outcome =
    Returns "result option"
  | Raises py_exception

section \<open>Watches and their mappers\<close>

text \<open>
  A mapper turns an observed object into requests. It may raise, and it draws request
  ids: it takes the next free id and returns it advanced, also when it raises.
\<close>

type_synonym mapper_fn = "json \<Rightarrow> nat \<Rightarrow> (py_exception + request list) \<times> nat"

text \<open>
  Modelled from the spec: the class \<open>Watch\<close> of \<open>runtime/watch.py\<close>, which
  binds \<open>(api_version, kind, mapper, labels?, namespace?)\<close>.
\<close>

record 'l watch =
  watch_api_version :: string
  watch_kind :: string
  watch_mapper :: mapper_fn
  watch_labels :: "'l option"
  watch_namespace :: "string option"

definition Watch ::
  "string \<Rightarrow> string \<Rightarrow> mapper_fn \<Rightarrow> 'l option \<Rightarrow> string option \<Rightarrow> 'l watch" where
  "Watch av k m ls ns =
     \<lparr>watch_api_version = av, watch_kind = k, watch_mapper = m,
      watch_labels = ls, watch_namespace = ns\<rparr>"

text \<open>
  The mapper of the primary watch (\<open>Controller.__init__\<close>):
  \<^verbatim>\<open>lambda obj: [Request(obj["metadata"]["name"], obj["metadata"].get("namespace"))]\<close>
\<close>

definition primary_mapper :: mapper_fn where
  "primary_mapper obj next_id =
     (case py_getitem obj ''metadata'' of
        Inl e \<Rightarrow> (Inl e, next_id)
      | Inr m \<Rightarrow>
     (case py_getitem m ''name'' of
        Inl e \<Rightarrow> (Inl e, next_id)
      | Inr n \<Rightarrow>
     (case py_getitem obj ''metadata'' of
        Inl e \<Rightarrow> (Inl e, next_id)
      | Inr m' \<Rightarrow>
     (case py_get m' ''namespace'' JNull of
        Inl e \<Rightarrow> (Inl e, next_id)
      | Inr ns \<Rightarrow>
          (case Request n ns next_id of (r, next_id') \<Rightarrow> (Inr [r], next_id'))))))"

text \<open>
  The condition of the comprehension in \<open>Controller.owns\<close>:
  \<^verbatim>\<open>ref["apiVersion"] == self._api_version and ref["kind"] == self._kind and
  (not controller_only or ref.get("controller", False))\<close>
  \<open>and\<close> and \<open>or\<close> stop at the first operand that decides them.
\<close>

definition owns_condition :: "string \<Rightarrow> string \<Rightarrow> bool \<Rightarrow> json \<Rightarrow> py_exception + bool" where
  "owns_condition self_api_version self_kind controller_only ref =
     (case py_getitem ref ''apiVersion'' of
        Inl e \<Rightarrow> Inl e
      | Inr av \<Rightarrow>
          if \<not> py_eq_str av self_api_version then Inr False
          else
            (case py_getitem ref ''kind'' of
               Inl e \<Rightarrow> Inl e
             | Inr k \<Rightarrow>
                 if \<not> py_eq_str k self_kind then Inr False
                 else if \<not> controller_only then Inr True
                 else
                   (case py_get ref ''controller'' (JBool False) of
                      Inl e \<Rightarrow> Inl e
                    | Inr c \<Rightarrow> Inr (py_truthy c))))"

text \<open>
  The element of the comprehension, evaluated for a reference that passed the condition:
  \<^verbatim>\<open>Request(ref["name"], obj["metadata"].get("namespace"))\<close>
\<close>

definition owns_element :: "json \<Rightarrow> json \<Rightarrow> nat \<Rightarrow> (py_exception + request) \<times> nat" where
  "owns_element obj ref next_id =
     (case py_getitem ref ''name'' of
        Inl e \<Rightarrow> (Inl e, next_id)
      | Inr n \<Rightarrow>
     (case py_getitem obj ''metadata'' of
        Inl e \<Rightarrow> (Inl e, next_id)
      | Inr m \<Rightarrow>
     (case py_get m ''namespace'' JNull of
        Inl e \<Rightarrow> (Inl e, next_id)
      | Inr ns \<Rightarrow>
          (case Request n ns next_id of (r, next_id') \<Rightarrow> (Inr r, next_id')))))"

text \<open>The comprehension over the references, in order; an exception ends it.\<close>

fun owns_comprehension ::
  "string \<Rightarrow> string \<Rightarrow> bool \<Rightarrow> json \<Rightarrow> json list \<Rightarrow> nat \<Rightarrow> (py_exception + request list) \<times> nat" where
  "owns_comprehension av k co obj [] next_id = (Inr [], next_id)"
| "owns_comprehension av k co obj (ref # refs) next_id =
     (case owns_condition av k co ref of
        Inl e \<Rightarrow> (Inl e, next_id)
      | Inr False \<Rightarrow> owns_comprehension av k co obj refs next_id
      | Inr True \<Rightarrow>
          (case owns_element obj ref next_id of
             (Inl e, next_id') \<Rightarrow> (Inl e, next_id')
           | (Inr r, next_id') \<Rightarrow>
               (case owns_comprehension av k co obj refs next_id' of
                  (Inl e, next_id'') \<Rightarrow> (Inl e, next_id'')
                | (Inr rs, next_id'') \<Rightarrow> (Inr (r # rs), next_id''))))"

text \<open>
  The mapper of a watch added by \<open>Controller.owns\<close>: the comprehension over
  \<^verbatim>\<open>obj["metadata"].get("ownerReferences", [])\<close>.
\<close>

definition owns_mapper :: "string \<Rightarrow> string \<Rightarrow> bool \<Rightarrow> mapper_fn" where
  "owns_mapper self_api_version self_kind controller_only obj next_id =
     (case py_getitem obj ''metadata'' of
        Inl e \<Rightarrow> (Inl e, next_id)
      | Inr m \<Rightarrow>
     (case py_get m ''ownerReferences'' (JList []) of
        Inl e \<Rightarrow> (Inl e, next_id)
      | Inr v \<Rightarrow>
     (case py_iter v of
        Inl e \<Rightarrow> (Inl e, next_id)
      | Inr refs \<Rightarrow>
          owns_comprehension self_api_version self_kind controller_only obj refs next_id)))"

section \<open>The controller\<close>

text \<open>
  Modelled from the spec: the class \<open>WorkerPool\<close> of \<open>runtime/worker_pool.py\<close>,
  a pool of fixed capacity of which some workers may be reserved. It is a plain object:
  the spec gives it no length and no truth value of its own, so as an operand of
  \<open>or\<close> it is true.
\<close>

record worker_pool =
  capacity :: int
  reserved :: "nat list"

definition WorkerPool :: "int \<Rightarrow> worker_pool" where
  "WorkerPool worker_count = \<lparr>capacity = worker_count, reserved = []\<rparr>"

definition worker_pool_truthy :: "worker_pool \<Rightarrow> bool" where
  "worker_pool_truthy p = True"

text \<open>
  The attributes of a \<open>Controller\<close> (without the leading underscore of the source).
  The reconcile function is the user's: given the client and the request it returns a
  result or \<open>None\<close>, or raises.
\<close>

record ('c, 'l) controller =
  api_version :: string
  kind :: string
  controller_namespace :: "string option"
  worker_pool :: worker_pool
  requeue_max_backoff :: int
  reconcile_func :: "'c \<Rightarrow> request \<Rightarrow> outcome"
  watches :: "'l watch list"

text \<open>
  \<open>Controller.__init__\<close>. An argument left out is \<open>None\<close> here: \<open>worker_count\<close>
  then defaults to 10 and \<open>requeue_max_backoff\<close> to 120.
\<close>

definition default_worker_count :: int where
  "default_worker_count = 10"

definition default_requeue_max_backoff :: int where
  "default_requeue_max_backoff = 120"

definition Controller ::
  "string \<Rightarrow> string \<Rightarrow> ('c \<Rightarrow> request \<Rightarrow> outcome) \<Rightarrow> 'l option \<Rightarrow> string option \<Rightarrow>
   int option \<Rightarrow> worker_pool option \<Rightarrow> int option \<Rightarrow> ('c, 'l) controller" where
  "Controller av k f labels ns worker_count_arg worker_pool_arg requeue_max_backoff_arg =
     (let worker_count = (case worker_count_arg of None \<Rightarrow> default_worker_count | Some n \<Rightarrow> n);
          max_backoff =
            (case requeue_max_backoff_arg of None \<Rightarrow> default_requeue_max_backoff | Some b \<Rightarrow> b)
      in \<lparr>api_version = av,
          kind = k,
          controller_namespace = ns,
          worker_pool =
            (case worker_pool_arg of
               None \<Rightarrow> WorkerPool worker_count
             | Some p \<Rightarrow> if worker_pool_truthy p then p else WorkerPool worker_count),
          requeue_max_backoff = max_backoff,
          reconcile_func = f,
          watches = [Watch av k primary_mapper labels ns]\<rparr>)"

text \<open>
  \<open>Controller.owns\<close>: appends a watch of the child resource whose mapper compares the
  owner references with the controller's own \<open>api_version\<close> and \<open>kind\<close>.
  \<open>controller_only\<close> left out is \<open>True\<close>.
\<close>

definition owns ::
  "('c, 'l) controller \<Rightarrow> string \<Rightarrow> string \<Rightarrow> bool option \<Rightarrow> ('c, 'l) controller" where
  "owns self av k controller_only_arg =
     (let controller_only = (case controller_only_arg of None \<Rightarrow> True | Some b \<Rightarrow> b)
      in self\<lparr>watches := watches self @
           [Watch av k (owns_mapper (api_version self) (kind self) controller_only)
              None (controller_namespace self)]\<rparr>)"

section \<open>Handling a request\<close>

text \<open>
  What \<open>_handle_request\<close> does to the outside, in order: the log records (the format
  string only) and the calls on the queue, with their arguments. Of the class
  \<open>Queue\<close> of \<open>runtime/queue.py\<close> only the calls are recorded; \<open>requeue\<close> and
  \<open>processing_complete\<close> do not suspend and are taken to return normally.
\<close>

datatype event =
    LogInfo string
  | LogException string
  | QueueRequeue request int real
  | QueueProcessingComplete request

text \<open>How a call ends: it returns, or an exception leaves it.\<close>

datatype completion =
    Completed
  | Escaped py_exception

text \<open>The calls on the queue among the events.\<close>

fun is_queue_call :: "event \<Rightarrow> bool" where
  "is_queue_call (QueueRequeue r a d) = True"
| "is_queue_call (QueueProcessingComplete r) = True"
| "is_queue_call (LogInfo s) = False"
| "is_queue_call (LogException s) = False"

definition queue_calls :: "event list \<Rightarrow> event list" where
  "queue_calls es = filter is_queue_call es"

text \<open>
  \<open>random.uniform(a, b)\<close> of the standard library is \<open>a + (b - a) * random()\<close>,
  where \<open>random()\<close> draws \<open>x\<close> with \<open>0 \<le> x < 1\<close>. The draw is an input of the
  model; numbers are reals, so the rounding of floating-point addition is left out.
\<close>

definition random_uniform :: "real \<Rightarrow> real \<Rightarrow> real \<Rightarrow> real" where
  "random_uniform a b x = a + (b - a) * x"

text \<open>
  \<open>if result.requeue_after:\<close> holds for a number other than zero, and fails for
  \<open>None\<close> and for zero. \<open>requested_delay\<close> is the number when the test holds.
\<close>

definition requested_delay :: "real option \<Rightarrow> real option" where
  "requested_delay ra = (case ra of None \<Rightarrow> None | Some d \<Rightarrow> if d \<noteq> 0 then Some d else None)"

text \<open>
  The second half of \<open>_handle_request\<close>, from \<open>if result.requeue:\<close> on. \<open>2**attempt\<close>
  is \<open>2 powi attempt\<close>: an integer power for \<open>attempt \<ge> 0\<close>, its inverse below.
\<close>

definition requeue_or_complete ::
  "('c, 'l) controller \<Rightarrow> request \<Rightarrow> int \<Rightarrow> real \<Rightarrow> result \<Rightarrow> event list" where
  "requeue_or_complete self request attempt x result =
     (if requeue result then
        (let (delay, attempt') =
               (case requested_delay (requeue_after result) of
                  Some d \<Rightarrow> (d, - 1)
                | None \<Rightarrow>
                    (min (2 powi attempt) (real_of_int (requeue_max_backoff self)), attempt));
             delay' = delay + random_uniform 0 1 x
         in [LogInfo ''Requeuing request after %.3fs'',
             QueueRequeue request (attempt' + 1) delay'])
      else
        [LogInfo ''Successfully handled reconcile request'',
         QueueProcessingComplete request])"

text \<open>
  \<open>_handle_request\<close>: the \<open>try\<close> statement around the call of the reconcile function,
  then \<open>requeue_or_complete\<close>. The handlers are tried in the order of the source:
  \<open>except asyncio.CancelledError: raise\<close>, then \<open>except Exception\<close>; an exception
  neither handler matches leaves the function. \<open>result or Result()\<close> replaces
  \<open>None\<close>; an instance of \<open>Result\<close> is true. \<open>x\<close> is the draw of \<open>random()\<close>.
\<close>

definition handle_request ::
  "('c, 'l) controller \<Rightarrow> 'c \<Rightarrow> nat \<Rightarrow> request \<Rightarrow> int \<Rightarrow> real \<Rightarrow> completion \<times> event list" where
  "handle_request self client worker_id request attempt x =
     (let started = [LogInfo ''Handling reconcile request (attempt %d)'']
      in case reconcile_func self client request of
           Raises e \<Rightarrow>
             if e = CancelledError then (Escaped e, started)
             else if isinstance_Exception e then
               (Completed,
                started @ [LogException ''Error handling reconcile request'']
                  @ requeue_or_complete self request attempt x (Result True None))
             else (Escaped e, started)
         | Returns r \<Rightarrow>
             (Completed,
              started @ requeue_or_complete self request attempt x
                (case r of None \<Rightarrow> Result_default | Some res \<Rightarrow> res)))"

section \<open>The dispatch loop\<close>

text \<open>
  Modelled from the spec: a \<open>Worker\<close> of \<open>runtime/worker_pool.py\<close>, known by its id.
\<close>

record worker =
  worker_id :: nat

text \<open>
  The operations of \<open>_dispatch\<close> on the queue and on the worker pool, each with what
  it returned or was given.
\<close>

datatype dispatch_op =
    HasEligibleRequest bool
  | Sleep
  | Reserve worker
  | Dequeue request int
  | SetTask worker nat request int

text \<open>
  The queue and the pool belong to other tasks too, so what they answer is an input:
  the answer of the \<open>k\<close>-th call of each method.
\<close>

record dispatch_env =
  eligible_answer :: "nat \<Rightarrow> bool"
  reserve_answer :: "nat \<Rightarrow> worker"
  dequeue_answer :: "nat \<Rightarrow> request \<times> int"

text \<open>
  Where the loop stands: before the test of the inner \<open>while\<close>, before the
  \<open>sleep\<close> in its body, before \<open>reserve\<close>, before \<open>dequeue\<close> (holding the worker),
  before \<open>set_task\<close> (holding the worker, the request and the attempt).
\<close>

datatype dispatch_pc =
    AtPoll
  | AtSleep
  | AtReserve
  | AtDequeue worker
  | AtSetTask worker request int

text \<open>
  The state of the loop: where it stands, how many times \<open>has_eligible_request\<close> was
  called, and how many iterations of the outer loop are complete.
\<close>

record dispatch_state =
  pc :: dispatch_pc
  polls :: nat
  iterations :: nat

definition dispatch_init :: dispatch_state where
  "dispatch_init = \<lparr>pc = AtPoll, polls = 0, iterations = 0\<rparr>"

text \<open>One operation of the loop and the state after it.\<close>

definition dispatch_step :: "dispatch_env \<Rightarrow> dispatch_state \<Rightarrow> dispatch_op \<times> dispatch_state" where
  "dispatch_step env s =
     (case pc s of
        AtPoll \<Rightarrow>
          (let b = eligible_answer env (polls s)
           in (HasEligibleRequest b,
               s\<lparr>pc := (if \<not> b then AtSleep else AtReserve), polls := Suc (polls s)\<rparr>))
      | AtSleep \<Rightarrow> (Sleep, s\<lparr>pc := AtPoll\<rparr>)
      | AtReserve \<Rightarrow>
          (let w = reserve_answer env (iterations s)
           in (Reserve w, s\<lparr>pc := AtDequeue w\<rparr>))
      | AtDequeue w \<Rightarrow>
          (case dequeue_answer env (iterations s) of
             (request, attempt) \<Rightarrow> (Dequeue request attempt, s\<lparr>pc := AtSetTask w request attempt\<rparr>))
      | AtSetTask w request attempt \<Rightarrow>
          (SetTask w (worker_id w) request attempt,
           s\<lparr>pc := AtPoll, iterations := Suc (iterations s)\<rparr>))"

text \<open>
  \<open>_dispatch\<close> never returns (\<open>while True\<close>); \<open>dispatch n\<close> is what it has done
  after \<open>n\<close> operations, and the state it is in.
\<close>

primrec dispatch :: "dispatch_env \<Rightarrow> nat \<Rightarrow> dispatch_op list \<times> dispatch_state" where
  "dispatch env 0 = ([], dispatch_init)"
| "dispatch env (Suc n) =
     (case dispatch env n of
        (ops, s) \<Rightarrow> (case dispatch_step env s of (op, s') \<Rightarrow> (ops @ [op], s')))"

definition dispatch_trace :: "dispatch_env \<Rightarrow> nat \<Rightarrow> dispatch_op list" where
  "dispatch_trace env n = fst (dispatch env n)"

section \<open>Owner references, as the spec words them\<close>

text \<open>
  An owner reference as the Kubernetes conventions of the spec have it:
  \<open>{apiVersion, kind, name, controller?: bool, uid}\<close>, a mapping in which
  \<open>apiVersion\<close>, \<open>kind\<close> and \<open>name\<close> are present and \<open>controller\<close> is absent or a
  boolean.
\<close>

fun absent_or_bool :: "json option \<Rightarrow> bool" where
  "absent_or_bool None = True"
| "absent_or_bool (Some (JBool b)) = True"
| "absent_or_bool (Some v) = False"

fun owner_reference :: "json \<Rightarrow> bool" where
  "owner_reference (JDict kvs) =
     (map_of kvs ''apiVersion'' \<noteq> None \<and> map_of kvs ''kind'' \<noteq> None \<and>
      map_of kvs ''name'' \<noteq> None \<and> absent_or_bool (map_of kvs ''controller''))"
| "owner_reference v = False"

text \<open>
  The claim's test on a reference: its \<open>apiVersion\<close> and \<open>kind\<close> equal the
  controller's, and, when \<open>controller_only\<close> holds, its \<open>controller\<close> flag is
  \<open>true\<close>.
\<close>

fun reference_matches :: "string \<Rightarrow> string \<Rightarrow> bool \<Rightarrow> json \<Rightarrow> bool" where
  "reference_matches av k controller_only (JDict kvs) =
     (map_of kvs ''apiVersion'' = Some (JStr av) \<and> map_of kvs ''kind'' = Some (JStr k) \<and>
      (if controller_only then map_of kvs ''controller'' = Some (JBool True) else True))"
| "reference_matches av k controller_only v = False"

text \<open>The name a reference carries (\<open>None\<close> where it carries none).\<close>

fun reference_name :: "json \<Rightarrow> json" where
  "reference_name (JDict kvs) = (case map_of kvs ''name'' of None \<Rightarrow> JNull | Some n \<Rightarrow> n)"
| "reference_name v = JNull"

text \<open>
  One request per reference of a list, in order, each named after its reference, all in
  the namespace \<open>ns\<close>, with ids from \<open>next_id\<close> on.
\<close>

fun requests_for :: "json \<Rightarrow> json list \<Rightarrow> nat \<Rightarrow> request list" where
  "requests_for ns [] next_id = []"
| "requests_for ns (ref # refs) next_id =
     \<lparr>name = reference_name ref, namespace = ns, request_id = next_id\<rparr>
       # requests_for ns refs (Suc next_id)"

text \<open>The namespace in an object's metadata: \<open>None\<close> for a cluster-scoped object.\<close>

definition metadata_namespace :: "(string \<times> json) list \<Rightarrow> json" where
  "metadata_namespace md = (case map_of md ''namespace'' of None \<Rightarrow> JNull | Some ns \<Rightarrow> ns)"

section \<open>The order of the dispatch loop\<close>

text \<open>
  What the current iteration of the outer loop has done when the loop stands at a
  given place.
\<close>

fun done_in_iteration :: "dispatch_pc \<Rightarrow> dispatch_op list" where
  "done_in_iteration AtPoll = []"
| "done_in_iteration AtSleep = [HasEligibleRequest False]"
| "done_in_iteration AtReserve = [HasEligibleRequest True]"
| "done_in_iteration (AtDequeue w) = [HasEligibleRequest True, Reserve w]"
| "done_in_iteration (AtSetTask w request attempt) =
     [HasEligibleRequest True, Reserve w, Dequeue request attempt]"

text \<open>
  The order of the operations in a trace: a reservation comes right after a call of
  \<open>has_eligible_request\<close> that answered true, a \<open>dequeue\<close> right after the
  reservation, and \<open>set_task\<close> right after the \<open>dequeue\<close>, for the worker reserved
  and the request dequeued.
\<close>

definition in_order :: "dispatch_op list \<Rightarrow> bool" where
  "in_order ops =
     ((\<forall>pre w post. ops = pre @ Reserve w # post \<longrightarrow>
         (\<exists>pre'. pre = pre' @ [HasEligibleRequest True])) \<and>
      (\<forall>pre request attempt post. ops = pre @ Dequeue request attempt # post \<longrightarrow>
         (\<exists>pre' w. pre = pre' @ [HasEligibleRequest True, Reserve w])) \<and>
      (\<forall>pre w i request attempt post. ops = pre @ SetTask w i request attempt # post \<longrightarrow>
         i = worker_id w \<and>
         (\<exists>pre'. pre = pre' @ [HasEligibleRequest True, Reserve w, Dequeue request attempt])))"

text \<open>
  Which operation may come right after which: a poll that answered false is followed by
  the sleep, one that answered true by the reservation; the sleep by the next poll; the
  reservation by the \<open>dequeue\<close>; the \<open>dequeue\<close> by \<open>set_task\<close> with the request
  and attempt dequeued and the worker's own id; \<open>set_task\<close> by the first poll of the
  next iteration. Nothing else follows anything.
\<close>

fun may_follow :: "dispatch_op \<Rightarrow> dispatch_op \<Rightarrow> bool" where
  "may_follow (HasEligibleRequest b) Sleep = (\<not> b)"
| "may_follow (HasEligibleRequest b) (Reserve w) = b"
| "may_follow Sleep (HasEligibleRequest b) = True"
| "may_follow (Reserve w) (Dequeue request attempt) = True"
| "may_follow (Dequeue request attempt) (SetTask w i request' attempt') =
     (request' = request \<and> attempt' = attempt \<and> i = worker_id w)"
| "may_follow (SetTask w i request attempt) (HasEligibleRequest b) = True"
| "may_follow x y = False"

text \<open>
  What the queue and the pool answered in a trace: the answers of
  \<open>has_eligible_request\<close>, the workers reserved, and the requests dequeued with their
  attempts, each in the order of the calls.
\<close>

definition poll_answers :: "dispatch_op list \<Rightarrow> bool list" where
  "poll_answers ops =
     concat (map (\<lambda>op. case op of HasEligibleRequest b \<Rightarrow> [b] | _ \<Rightarrow> []) ops)"

definition reservations :: "dispatch_op list \<Rightarrow> worker list" where
  "reservations ops = concat (map (\<lambda>op. case op of Reserve w \<Rightarrow> [w] | _ \<Rightarrow> []) ops)"

definition dequeues :: "dispatch_op list \<Rightarrow> (request \<times> int) list" where
  "dequeues ops =
     concat (map (\<lambda>op. case op of Dequeue request attempt \<Rightarrow> [(request, attempt)] | _ \<Rightarrow> []) ops)"

text \<open>The tasks handed to workers in a trace, in order.\<close>

definition tasks_set :: "dispatch_op list \<Rightarrow> (worker \<times> request \<times> int) list" where
  "tasks_set ops =
     concat (map (\<lambda>op. case op of SetTask w i request attempt \<Rightarrow> [(w, request, attempt)] | _ \<Rightarrow> [])
       ops)"

text \<open>Every two operations next to each other in a trace are a permitted succession.\<close>

definition successions :: "dispatch_op list \<Rightarrow> bool" where
  "successions ops = (\<forall>pre x y post. ops = pre @ x # y # post \<longrightarrow> may_follow x y)"

text \<open>
  How many reservations and how many \<open>dequeue\<close>s the iteration under way has made when
  the loop stands at a given place.
\<close>

fun reserved_now :: "dispatch_pc \<Rightarrow> nat" where
  "reserved_now (AtDequeue w) = 1"
| "reserved_now (AtSetTask w request attempt) = 1"
| "reserved_now p = 0"

fun dequeued_now :: "dispatch_pc \<Rightarrow> nat" where
  "dequeued_now (AtSetTask w request attempt) = 1"
| "dequeued_now p = 0"

section \<open>Concrete inputs\<close>

text \<open>A request and a controller whose reconcile function ends the way given.\<close>

definition example_request :: request where
  "example_request = \<lparr>name = JStr ''parent'', namespace = JStr ''default'', request_id = 7\<rparr>"

definition example_controller :: "outcome \<Rightarrow> (unit, unit) controller" where
  "example_controller out = Controller ''v1'' ''Foo'' (\<lambda>client request. out) None None None None None"

text \<open>
  A child object named \<open>child-1\<close> whose one owner reference names \<open>parent\<close>, of the
  controller's resource, as controller.
\<close>

definition parent_reference :: json where
  "parent_reference =
     JDict [(''apiVersion'', JStr ''v1''), (''kind'', JStr ''Foo''), (''name'', JStr ''parent''),
            (''controller'', JBool True), (''uid'', JStr ''u-1'')]"

definition example_child :: json where
  "example_child =
     JDict [(''apiVersion'', JStr ''v1''), (''kind'', JStr ''ConfigMap''),
            (''metadata'',
             JDict [(''name'', JStr ''child-1''), (''namespace'', JStr ''default''),
                    (''ownerReferences'', JList [parent_reference])])]"

text \<open>An owner reference of the controller's resource without the \<open>controller\<close> key.\<close>

definition plain_reference :: json where
  "plain_reference =
     JDict [(''apiVersion'', JStr ''v1''), (''kind'', JStr ''Foo''), (''name'', JStr ''parent''),
            (''uid'', JStr ''u-1'')]"

definition example_plain_child :: json where
  "example_plain_child =
     JDict [(''metadata'',
             JDict [(''name'', JStr ''child-2''), (''namespace'', JStr ''default''),
                    (''ownerReferences'', JList [plain_reference])])]"

text \<open>A cluster-scoped object with no owner references.\<close>

definition example_node :: json where
  "example_node = JDict [(''kind'', JStr ''Node''), (''metadata'', JDict [(''name'', JStr ''node-1'')])]"

text \<open>
  A queue with nothing eligible at the first poll and a request at the second, and a
  pool whose \<open>i\<close>-th reservation gives worker \<open>i\<close>.
\<close>

definition example_env :: dispatch_env where
  "example_env =
     \<lparr>eligible_answer = (\<lambda>k. k \<noteq> 0),
      reserve_answer = (\<lambda>i. \<lparr>worker_id = i\<rparr>),
      dequeue_answer = (\<lambda>i. (example_request, 0))\<rparr>"

section \<open>Properties of handling a request\<close>

lemma random_uniform_unit: "0 \<le> x \<Longrightarrow> x < 1 \<Longrightarrow> 0 \<le> random_uniform 0 1 x \<and> random_uniform 0 1 x < 1"
  by (simp add: random_uniform_def)

lemma requeue_or_complete_backoff:
  assumes "requeue res" and "requested_delay (requeue_after res) = None"
  shows "requeue_or_complete self request attempt x res =
    [LogInfo ''Requeuing request after %.3fs'',
     QueueRequeue request (attempt + 1)
       (min (2 powi attempt) (real_of_int (requeue_max_backoff self)) + random_uniform 0 1 x)]"
  using assms by (simp add: requeue_or_complete_def)

lemma requeue_or_complete_after:
  assumes "requeue res" and "requested_delay (requeue_after res) = Some d"
  shows "requeue_or_complete self request attempt x res =
    [LogInfo ''Requeuing request after %.3fs'',
     QueueRequeue request 0 (d + random_uniform 0 1 x)]"
  using assms by (simp add: requeue_or_complete_def)

lemma requeue_or_complete_done:
  assumes "\<not> requeue res"
  shows "requeue_or_complete self request attempt x res =
    [LogInfo ''Successfully handled reconcile request'', QueueProcessingComplete request]"
  using assms by (simp add: requeue_or_complete_def)

lemma handle_request_caught:
  assumes "reconcile_func self client request = Raises e"
      and "e \<noteq> CancelledError" and "isinstance_Exception e"
  shows "handle_request self client w request attempt x =
    (Completed,
     [LogInfo ''Handling reconcile request (attempt %d)'',
      LogException ''Error handling reconcile request'']
       @ requeue_or_complete self request attempt x (Result True None))"
  using assms by (simp add: handle_request_def)

lemma handle_request_escapes:
  assumes "reconcile_func self client request = Raises e"
      and "e = CancelledError \<or> \<not> isinstance_Exception e"
  shows "handle_request self client w request attempt x =
    (Escaped e, [LogInfo ''Handling reconcile request (attempt %d)''])"
  using assms by (auto simp add: handle_request_def Let_def)

lemma handle_request_returns:
  assumes "reconcile_func self client request = Returns r"
  shows "handle_request self client w request attempt x =
    (Completed,
     LogInfo ''Handling reconcile request (attempt %d)''
       # requeue_or_complete self request attempt x
           (case r of None \<Rightarrow> Result_default | Some res \<Rightarrow> res))"
  using assms by (simp add: handle_request_def)

lemma requeue_or_complete_reconcile_func:
  "requeue_or_complete (self\<lparr>reconcile_func := f\<rparr>) request attempt x res =
   requeue_or_complete self request attempt x res"
  by (simp add: requeue_or_complete_def split: option.split)

text \<open>
  Claim C1, as the code has it. When the reconcile function raises an exception derived
  from \<open>Exception\<close>, other than a cancellation, \<open>_handle_request\<close> returns
  normally, and its calls on the queue are those of a run whose reconcile function
  returned \<open>Result(True)\<close>: one call of \<open>queue.requeue\<close> for the request. When it
  raises a cancellation, or an exception that derives from \<open>BaseException\<close> only,
  that exception leaves \<open>_handle_request\<close> and no call on the queue is made.
\<close>

theorem handle_request_exceptions:
  assumes "reconcile_func self client request = Raises e"
  shows "(e \<noteq> CancelledError \<and> isinstance_Exception e \<longrightarrow>
            fst (handle_request self client w request attempt x) = Completed \<and>
            queue_calls (snd (handle_request self client w request attempt x)) =
              queue_calls (snd (handle_request
                (self\<lparr>reconcile_func := (\<lambda>c r. Returns (Some (Result True None)))\<rparr>)
                client w request attempt x)) \<and>
            (\<exists>a d. queue_calls (snd (handle_request self client w request attempt x)) =
              [QueueRequeue request a d])) \<and>
         (e = CancelledError \<or> \<not> isinstance_Exception e \<longrightarrow>
            fst (handle_request self client w request attempt x) = Escaped e \<and>
            queue_calls (snd (handle_request self client w request attempt x)) = [])"
proof (intro conjI impI)
  assume caught: "e \<noteq> CancelledError \<and> isinstance_Exception e"
  let ?as_if = "self\<lparr>reconcile_func := (\<lambda>c r. Returns (Some (Result True None)))\<rparr>"
  have run: "handle_request self client w request attempt x =
    (Completed,
     [LogInfo ''Handling reconcile request (attempt %d)'',
      LogException ''Error handling reconcile request'']
       @ requeue_or_complete self request attempt x (Result True None))"
    using assms caught by (simp add: handle_request_caught)
  have as_if: "handle_request ?as_if client w request attempt x =
    (Completed,
     LogInfo ''Handling reconcile request (attempt %d)''
       # requeue_or_complete self request attempt x (Result True None))"
    by (simp add: handle_request_returns requeue_or_complete_reconcile_func)
  have body: "requeue_or_complete self request attempt x (Result True None) =
    [LogInfo ''Requeuing request after %.3fs'',
     QueueRequeue request (attempt + 1)
       (min (2 powi attempt) (real_of_int (requeue_max_backoff self)) + random_uniform 0 1 x)]"
    by (rule requeue_or_complete_backoff) (simp_all add: Result_def requested_delay_def)
  show "fst (handle_request self client w request attempt x) = Completed"
    by (simp add: run)
  show "queue_calls (snd (handle_request self client w request attempt x)) =
        queue_calls (snd (handle_request ?as_if client w request attempt x))"
    by (simp add: run as_if queue_calls_def)
  show "\<exists>a d. queue_calls (snd (handle_request self client w request attempt x)) =
          [QueueRequeue request a d]"
    by (simp add: run body queue_calls_def)
next
  assume escapes: "e = CancelledError \<or> \<not> isinstance_Exception e"
  have run: "handle_request self client w request attempt x =
    (Escaped e, [LogInfo ''Handling reconcile request (attempt %d)''])"
    using assms escapes by (rule handle_request_escapes)
  show "fst (handle_request self client w request attempt x) = Escaped e"
    by (simp add: run)
  show "queue_calls (snd (handle_request self client w request attempt x)) = []"
    by (simp add: run queue_calls_def)
qed

lemma example_controller_simps:
  "reconcile_func (example_controller out) client request = out"
  "requeue_max_backoff (example_controller out) = 120"
  by (simp_all add: example_controller_def Controller_def default_requeue_max_backoff_def)

text \<open>
  The theorem at two runs: a \<open>KeyError\<close> at attempt 3 is requeued as attempt 4 after
  \<open>min(2**3, 120) = 8\<close> seconds (the draw being 0); a cancellation escapes.
\<close>

theorem handle_request_exceptions_witness:
  "fst (handle_request (example_controller (Raises KeyError)) () 0 example_request 3 0) = Completed \<and>
   queue_calls (snd (handle_request (example_controller (Raises KeyError)) () 0 example_request 3 0)) =
     [QueueRequeue example_request 4 8] \<and>
   fst (handle_request (example_controller (Raises CancelledError)) () 0 example_request 3 0) =
     Escaped CancelledError \<and>
   queue_calls (snd (handle_request (example_controller (Raises CancelledError)) () 0 example_request 3 0)) = []"
proof -
  have k: "reconcile_func (example_controller (Raises KeyError)) () example_request = Raises KeyError"
    by (simp add: example_controller_simps)
  have c: "reconcile_func (example_controller (Raises CancelledError)) () example_request =
    Raises CancelledError"
    by (simp add: example_controller_simps)
  have as_if: "queue_calls (snd (handle_request
      ((example_controller (Raises KeyError))\<lparr>reconcile_func := (\<lambda>c r. Returns (Some (Result True None)))\<rparr>)
      () 0 example_request 3 0)) = [QueueRequeue example_request 4 8]"
    by (simp add: handle_request_def requeue_or_complete_def Result_def requested_delay_def
        random_uniform_def queue_calls_def example_controller_simps)
  from handle_request_exceptions [OF k, of 0 3 0] handle_request_exceptions [OF c, of 0 3 0] as_if
  show ?thesis by simp
qed

text \<open>
  Claim C1 as stated fails: \<open>SystemExit\<close> is no cancellation, yet it is not caught
  by \<open>except Exception\<close> and leaves \<open>_handle_request\<close>; nothing is requeued.
\<close>

theorem handle_request_exceptions_counterexample:
  "SystemExit \<noteq> CancelledError \<and>
   handle_request (example_controller (Raises SystemExit)) () 0 example_request 3 0 =
     (Escaped SystemExit, [LogInfo ''Handling reconcile request (attempt %d)''])"
  by (simp add: handle_request_def example_controller_simps)

text \<open>
  Claim C2, as the code has it. When the reconcile function raises an exception that
  \<open>_handle_request\<close> catches (one derived from \<open>Exception\<close>, no cancellation), or
  returns a result with \<open>requeue\<close> true and no \<open>requeue_after\<close>, the one call on
  the queue is \<open>queue.requeue(request, attempt + 1, delay)\<close> with
  \<open>delay = min(2**attempt, requeue_max_backoff) + random.uniform(0, 1)\<close>, the jitter
  lying in \<open>[0, 1)\<close>.
\<close>

theorem handle_request_backoff:
  assumes "(\<exists>e. reconcile_func self client request = Raises e \<and>
                e \<noteq> CancelledError \<and> isinstance_Exception e) \<or>
           (\<exists>res. reconcile_func self client request = Returns (Some res) \<and>
                requeue res \<and> requeue_after res = None)"
      and "0 \<le> x" and "x < 1"
  shows "queue_calls (snd (handle_request self client w request attempt x)) =
           [QueueRequeue request (attempt + 1)
              (min (2 powi attempt) (real_of_int (requeue_max_backoff self))
                 + random_uniform 0 1 x)] \<and>
         0 \<le> random_uniform 0 1 x \<and> random_uniform 0 1 x < 1"
proof -
  have jitter: "0 \<le> random_uniform 0 1 x \<and> random_uniform 0 1 x < 1"
    using assms(2,3) by (rule random_uniform_unit)
  from assms(1) have "queue_calls (snd (handle_request self client w request attempt x)) =
           [QueueRequeue request (attempt + 1)
              (min (2 powi attempt) (real_of_int (requeue_max_backoff self))
                 + random_uniform 0 1 x)]"
  proof
    assume "\<exists>e. reconcile_func self client request = Raises e \<and>
                e \<noteq> CancelledError \<and> isinstance_Exception e"
    then obtain e where e: "reconcile_func self client request = Raises e"
      "e \<noteq> CancelledError" "isinstance_Exception e" by blast
    have body: "requeue_or_complete self request attempt x (Result True None) =
      [LogInfo ''Requeuing request after %.3fs'',
       QueueRequeue request (attempt + 1)
         (min (2 powi attempt) (real_of_int (requeue_max_backoff self)) + random_uniform 0 1 x)]"
      by (rule requeue_or_complete_backoff) (simp_all add: Result_def requested_delay_def)
    show ?thesis
      by (simp add: handle_request_caught [OF e] body queue_calls_def)
  next
    assume "\<exists>res. reconcile_func self client request = Returns (Some res) \<and>
                requeue res \<and> requeue_after res = None"
    then obtain res where res: "reconcile_func self client request = Returns (Some res)"
      "requeue res" "requeue_after res = None" by blast
    have body: "requeue_or_complete self request attempt x res =
      [LogInfo ''Requeuing request after %.3fs'',
       QueueRequeue request (attempt + 1)
         (min (2 powi attempt) (real_of_int (requeue_max_backoff self)) + random_uniform 0 1 x)]"
      using res(2,3) by (intro requeue_or_complete_backoff) (simp_all add: requested_delay_def)
    show ?thesis
      by (simp add: handle_request_returns [OF res(1)] body queue_calls_def)
  qed
  with jitter show ?thesis by simp
qed

text \<open>
  The theorem at attempt 9 with the default maximum of 120 seconds and a draw of 1/4:
  \<open>min(512, 120) + 1/4\<close> seconds, next attempt 10.
\<close>

theorem handle_request_backoff_witness:
  "queue_calls (snd (handle_request (example_controller (Returns (Some (Result True None))))
       () 0 example_request 9 (1/4))) =
     [QueueRequeue example_request 10 (481 / 4)]"
proof -
  have h: "(\<exists>e. reconcile_func (example_controller (Returns (Some (Result True None)))) ()
                  example_request = Raises e \<and> e \<noteq> CancelledError \<and> isinstance_Exception e) \<or>
           (\<exists>res. reconcile_func (example_controller (Returns (Some (Result True None)))) ()
                  example_request = Returns (Some res) \<and> requeue res \<and> requeue_after res = None)"
    by (simp add: example_controller_simps Result_def)
  have x: "(0::real) \<le> 1/4" "(1/4::real) < 1" by simp_all
  from handle_request_backoff [OF h x, of 0 9]
  show ?thesis by (simp add: example_controller_simps random_uniform_def)
qed

text \<open>
  Claim C2 as stated fails: a reconcile attempt that raises \<open>KeyboardInterrupt\<close>
  leads to no call of \<open>queue.requeue\<close>.
\<close>

theorem handle_request_backoff_counterexample:
  "queue_calls (snd (handle_request (example_controller (Raises KeyboardInterrupt))
       () 0 example_request 3 0)) = []"
  by (simp add: handle_request_def example_controller_simps queue_calls_def)

text \<open>
  Where the result has \<open>requeue\<close> true and \<open>requeue_after = d\<close> for a \<open>d\<close> other
  than zero, the one call on the queue is
  \<open>queue.requeue(request, 0, d + random.uniform(0, 1))\<close>, whatever the attempt was, the
  jitter lying in \<open>[0, 1)\<close>.
\<close>

lemma handle_request_requeue_after_nonzero:
  assumes "reconcile_func self client request = Returns (Some res)"
      and "requeue res" and "requeue_after res = Some d" and "d \<noteq> 0"
      and "0 \<le> x" and "x < 1"
  shows "queue_calls (snd (handle_request self client w request attempt x)) =
           [QueueRequeue request 0 (d + random_uniform 0 1 x)] \<and>
         0 \<le> random_uniform 0 1 x \<and> random_uniform 0 1 x < 1"
proof -
  have jitter: "0 \<le> random_uniform 0 1 x \<and> random_uniform 0 1 x < 1"
    using assms(5,6) by (rule random_uniform_unit)
  have "requested_delay (requeue_after res) = Some d"
    using assms(3,4) by (simp add: requested_delay_def)
  with assms(2) have body: "requeue_or_complete self request attempt x res =
      [LogInfo ''Requeuing request after %.3fs'',
       QueueRequeue request 0 (d + random_uniform 0 1 x)]"
    by (rule requeue_or_complete_after)
  have "queue_calls (snd (handle_request self client w request attempt x)) =
           [QueueRequeue request 0 (d + random_uniform 0 1 x)]"
    by (simp add: handle_request_returns [OF assms(1)] body queue_calls_def)
  with jitter show ?thesis by simp
qed

text \<open>
  Claim C3, where the code departs from it. At \<open>Result(True, 0)\<close> a delay of zero is
  requested, but \<open>if result.requeue_after:\<close> is a truth test and fails for zero: at
  attempt 3 and a draw of 0 the request is requeued as attempt 4 after
  \<open>min(2**3, 120) = 8\<close> seconds, where the claim, and the comment of the source on
  that branch, have attempt 0 after 0 seconds.
\<close>

theorem handle_request_requeue_after_zero:
  "requeue_after (Result True (Some 0)) = Some 0 \<and>
   queue_calls (snd (handle_request (example_controller (Returns (Some (Result True (Some 0)))))
       () 0 example_request 3 0)) =
     [QueueRequeue example_request 4 8]"
  by (simp add: handle_request_def requeue_or_complete_def Result_def requested_delay_def
      random_uniform_def queue_calls_def example_controller_simps)

text \<open>
  Claim C4. When the reconcile function returns \<open>None\<close>, or a result with
  \<open>requeue\<close> false, \<open>_handle_request\<close> returns normally, its one call on the queue
  is \<open>queue.processing_complete(request)\<close>, and the whole run equals the run in which
  the reconcile function returned \<open>{requeue: false}\<close>.
\<close>

theorem handle_request_complete:
  assumes "reconcile_func self client request = Returns r"
      and "r = None \<or> (\<exists>res. r = Some res \<and> \<not> requeue res)"
  shows "handle_request self client w request attempt x =
           (Completed,
            [LogInfo ''Handling reconcile request (attempt %d)'',
             LogInfo ''Successfully handled reconcile request'',
             QueueProcessingComplete request]) \<and>
         queue_calls (snd (handle_request self client w request attempt x)) =
           [QueueProcessingComplete request] \<and>
         handle_request self client w request attempt x =
           handle_request (self\<lparr>reconcile_func := (\<lambda>c r. Returns (Some (Result False None)))\<rparr>)
             client w request attempt x"
proof -
  have no: "\<not> requeue (case r of None \<Rightarrow> Result_default | Some res \<Rightarrow> res)"
    using assms(2) by (auto simp add: Result_default_def Result_def)
  have run: "handle_request self client w request attempt x =
           (Completed,
            [LogInfo ''Handling reconcile request (attempt %d)'',
             LogInfo ''Successfully handled reconcile request'',
             QueueProcessingComplete request])"
    by (simp add: handle_request_returns [OF assms(1)] requeue_or_complete_done [OF no])
  have no': "\<not> requeue (Result False None)" by (simp add: Result_def)
  have as_if: "handle_request (self\<lparr>reconcile_func := (\<lambda>c r. Returns (Some (Result False None)))\<rparr>)
             client w request attempt x =
           (Completed,
            [LogInfo ''Handling reconcile request (attempt %d)'',
             LogInfo ''Successfully handled reconcile request'',
             QueueProcessingComplete request])"
    by (simp add: handle_request_returns requeue_or_complete_done [OF no'])
  show ?thesis by (simp add: run as_if queue_calls_def)
qed

text \<open>
  The theorem at a reconcile function returning \<open>None\<close>, and at one returning a
  result with \<open>requeue\<close> false.
\<close>

theorem handle_request_complete_witness:
  "queue_calls (snd (handle_request (example_controller (Returns None)) () 0 example_request 5 0)) =
     [QueueProcessingComplete example_request] \<and>
   queue_calls (snd (handle_request (example_controller (Returns (Some (Result False (Some 30)))))
       () 0 example_request 5 0)) =
     [QueueProcessingComplete example_request]"
proof -
  have n: "reconcile_func (example_controller (Returns None)) () example_request = Returns None"
    by (simp add: example_controller_simps)
  have n': "(None :: result option) = None \<or> (\<exists>res. None = Some res \<and> \<not> requeue res)" by simp
  have f: "reconcile_func (example_controller (Returns (Some (Result False (Some 30))))) ()
      example_request = Returns (Some (Result False (Some 30)))"
    by (simp add: example_controller_simps)
  have f': "Some (Result False (Some 30)) = None \<or>
      (\<exists>res. Some (Result False (Some 30)) = Some res \<and> \<not> requeue res)"
    by (simp add: Result_def)
  note a = handle_request_complete [OF n n', of 0 5 0]
  note b = handle_request_complete [OF f f', of 0 5 0]
  from a [THEN conjunct2, THEN conjunct1] b [THEN conjunct2, THEN conjunct1]
  show ?thesis by (rule conjI)
qed

text \<open>
  Claim C8, as the code has it. Whenever the result in effect has \<open>requeue\<close> true (the
  reconcile function returned it, or raised an exception that was caught, the result
  then being \<open>Result(True)\<close>), the one call on the queue is
  \<open>queue.requeue(request, a, delay)\<close>, where \<open>a\<close> is \<open>attempt + 1\<close> on the
  exponential-backoff path and 0 when the delay is taken from \<open>requeue_after\<close>: the
  code sets \<open>attempt\<close> to -1 and passes \<open>attempt + 1\<close>.
\<close>

theorem handle_request_requeue_attempt:
  assumes "(\<exists>e. reconcile_func self client request = Raises e \<and> e \<noteq> CancelledError \<and>
                isinstance_Exception e \<and> res = Result True None) \<or>
           reconcile_func self client request = Returns (Some res)"
      and "requeue res"
  shows "\<exists>delay. queue_calls (snd (handle_request self client w request attempt x)) =
           [QueueRequeue request
              (case requested_delay (requeue_after res) of None \<Rightarrow> attempt + 1 | Some d \<Rightarrow> 0)
              delay]"
proof -
  have body: "\<exists>delay. requeue_or_complete self request attempt x res =
      [LogInfo ''Requeuing request after %.3fs'',
       QueueRequeue request
         (case requested_delay (requeue_after res) of None \<Rightarrow> attempt + 1 | Some d \<Rightarrow> 0)
         delay]"
  proof (cases "requested_delay (requeue_after res)")
    case None
    with assms(2) show ?thesis by (simp add: requeue_or_complete_backoff)
  next
    case (Some d)
    with assms(2) show ?thesis by (simp add: requeue_or_complete_after)
  qed
  from assms(1) have "snd (handle_request self client w request attempt x) =
      [LogInfo ''Handling reconcile request (attempt %d)'',
       LogException ''Error handling reconcile request'']
        @ requeue_or_complete self request attempt x res \<or>
     snd (handle_request self client w request attempt x) =
      LogInfo ''Handling reconcile request (attempt %d)''
        # requeue_or_complete self request attempt x res"
    by (auto simp add: handle_request_caught handle_request_returns)
  with body show ?thesis by (auto simp add: queue_calls_def)
qed

text \<open>The theorem at \<open>Result(True, 5)\<close> and attempt 3.\<close>

theorem handle_request_requeue_attempt_witness:
  "\<exists>delay. queue_calls (snd (handle_request
       (example_controller (Returns (Some (Result True (Some 5))))) () 0 example_request 3 0)) =
     [QueueRequeue example_request 0 delay]"
proof -
  have r: "(\<exists>e. reconcile_func (example_controller (Returns (Some (Result True (Some 5))))) ()
              example_request = Raises e \<and> e \<noteq> CancelledError \<and>
              isinstance_Exception e \<and> Result True (Some 5) = Result True None) \<or>
           reconcile_func (example_controller (Returns (Some (Result True (Some 5))))) ()
              example_request = Returns (Some (Result True (Some 5)))"
    by (simp add: example_controller_simps)
  have q: "requeue (Result True (Some 5))" by (simp add: Result_def)
  from handle_request_requeue_attempt [OF r q, of 0 3 0]
  show ?thesis by (simp add: Result_def requested_delay_def)
qed

text \<open>
  Claim C8 as stated fails: at \<open>Result(True, 5)\<close>, attempt 3 and a draw of 0 the call
  is \<open>queue.requeue(request, 0, 5)\<close>; no call passes -1.
\<close>

theorem handle_request_requeue_attempt_counterexample:
  "queue_calls (snd (handle_request
       (example_controller (Returns (Some (Result True (Some 5))))) () 0 example_request 3 0)) =
     [QueueRequeue example_request 0 5] \<and>
   \<not> (\<exists>delay. QueueRequeue example_request (- 1) delay \<in> set (snd (handle_request
       (example_controller (Returns (Some (Result True (Some 5))))) () 0 example_request 3 0)))"
  by (simp add: handle_request_def requeue_or_complete_def Result_def requested_delay_def
      random_uniform_def queue_calls_def example_controller_simps)

section \<open>Properties of the mappers\<close>

lemma owns_condition_owner_reference:
  assumes "owner_reference ref"
  shows "owns_condition av k co ref = Inr (reference_matches av k co ref)"
proof (cases ref)
  case (JDict kvs)
  with assms obtain a b where ab: "map_of kvs ''apiVersion'' = Some a" "map_of kvs ''kind'' = Some b"
    by auto
  from assms JDict have c: "absent_or_bool (map_of kvs ''controller'')" by simp
  show ?thesis
  proof (cases "map_of kvs ''controller''")
    case None
    with JDict ab show ?thesis by (auto simp add: owns_condition_def py_eq_str_def)
  next
    case (Some v)
    with c obtain t where "v = JBool t" by (cases v) auto
    with Some JDict ab show ?thesis by (auto simp add: owns_condition_def py_eq_str_def)
  qed
qed (use assms in auto)

lemma owns_element_owner_reference:
  assumes "py_getitem obj ''metadata'' = Inr (JDict md)" and "owner_reference ref"
  shows "owns_element obj ref next_id =
    (Inr \<lparr>name = reference_name ref, namespace = metadata_namespace md, request_id = next_id\<rparr>,
     Suc next_id)"
proof (cases ref)
  case (JDict kvs)
  with assms(2) obtain n where "map_of kvs ''name'' = Some n" by auto
  with JDict assms(1) show ?thesis
    by (simp add: owns_element_def Request_def metadata_namespace_def split: option.split)
qed (use assms in auto)

lemma owns_comprehension_owner_references:
  assumes "py_getitem obj ''metadata'' = Inr (JDict md)"
      and "\<forall>ref \<in> set refs. owner_reference ref"
  shows "owns_comprehension av k co obj refs next_id =
    (Inr (requests_for (metadata_namespace md) (filter (reference_matches av k co) refs) next_id),
     next_id + length (filter (reference_matches av k co) refs))"
  using assms(2)
proof (induction refs arbitrary: next_id)
  case Nil
  show ?case by simp
next
  case (Cons ref refs)
  then have ref: "owner_reference ref" and rest: "\<forall>r \<in> set refs. owner_reference r" by simp_all
  note cond = owns_condition_owner_reference [OF ref, of av k co]
  note elem = owns_element_owner_reference [OF assms(1) ref]
  show ?case
  proof (cases "reference_matches av k co ref")
    case True
    then show ?thesis by (simp add: cond elem Cons.IH [OF rest])
  next
    case False
    then show ?thesis by (simp add: cond Cons.IH [OF rest])
  qed
qed

lemma requests_for_names: "map name (requests_for ns refs next_id) = map reference_name refs"
  by (induction refs arbitrary: next_id) simp_all

lemma requests_for_length: "length (requests_for ns refs next_id) = length refs"
  by (induction refs arbitrary: next_id) simp_all

lemma owns_watch_mapper:
  "watch_mapper (last (watches (owns self av k co_arg))) =
   owns_mapper (api_version self) (kind self) (case co_arg of None \<Rightarrow> True | Some b \<Rightarrow> b)"
  by (simp add: owns_def Watch_def Let_def)

lemma owns_mapper_list:
  assumes "py_getitem obj ''metadata'' = Inr (JDict md)"
      and "(map_of md ''ownerReferences'' = None \<and> refs = []) \<or>
           map_of md ''ownerReferences'' = Some (JList refs)"
  shows "owns_mapper av k co obj next_id = owns_comprehension av k co obj refs next_id"
  using assms by (auto simp add: owns_mapper_def)

text \<open>
  Claim C6. Take the watch that \<open>owns\<close> registers, and an object as the watch
  observes it: its metadata is a mapping whose \<open>ownerReferences\<close>, when present, is a
  list of owner references. The mapper raises nothing and emits one request per
  reference whose \<open>apiVersion\<close> and \<open>kind\<close> equal the controller's own and, when
  \<open>controller_only\<close> holds (the default), whose \<open>controller\<close> flag is true: as many
  requests as matching references, in their order, each named after its reference.
  Nothing else of the object enters, its own name included.
\<close>

theorem owns_mapper_requests:
  assumes "py_getitem obj ''metadata'' = Inr (JDict md)"
      and "(map_of md ''ownerReferences'' = None \<and> refs = []) \<or>
           map_of md ''ownerReferences'' = Some (JList refs)"
      and "\<forall>ref \<in> set refs. owner_reference ref"
      and "controller_only = (case controller_only_arg of None \<Rightarrow> True | Some b \<Rightarrow> b)"
      and "matching = filter (reference_matches (api_version self) (kind self) controller_only) refs"
  shows "watch_mapper (last (watches (owns self av k controller_only_arg))) obj next_id =
           (Inr (requests_for (metadata_namespace md) matching next_id),
            next_id + length matching) \<and>
         length (requests_for (metadata_namespace md) matching next_id) = length matching \<and>
         map name (requests_for (metadata_namespace md) matching next_id) =
           map reference_name matching"
  using assms(4,5)
  by (simp add: owns_watch_mapper owns_mapper_list [OF assms(1,2)]
      owns_comprehension_owner_references [OF assms(1,3)]
      requests_for_names requests_for_length)

lemma example_controller_resource:
  "api_version (example_controller out) = ''v1''"
  "kind (example_controller out) = ''Foo''"
  by (simp_all add: example_controller_def Controller_def)

text \<open>
  The theorem at the child \<open>child-1\<close> with its one reference to \<open>parent\<close>: one
  request, for \<open>parent\<close>.
\<close>

theorem owns_mapper_requests_witness:
  "watch_mapper (last (watches (owns (example_controller (Returns None)) ''v1'' ''ConfigMap'' None)))
     example_child 0 =
   (Inr [\<lparr>name = JStr ''parent'', namespace = JStr ''default'', request_id = 0\<rparr>], 1)"
proof -
  let ?md = "[(''name'', JStr ''child-1''), (''namespace'', JStr ''default''),
              (''ownerReferences'', JList [parent_reference])]"
  have m: "py_getitem example_child ''metadata'' = Inr (JDict ?md)"
    by (simp add: example_child_def)
  have r: "(map_of ?md ''ownerReferences'' = None \<and> [parent_reference] = []) \<or>
           map_of ?md ''ownerReferences'' = Some (JList [parent_reference])"
    by simp
  have w: "\<forall>ref \<in> set [parent_reference]. owner_reference ref"
    by (simp add: parent_reference_def)
  have f: "filter (reference_matches (api_version (example_controller (Returns None)))
             (kind (example_controller (Returns None))) True) [parent_reference] = [parent_reference]"
    by (simp add: example_controller_resource parent_reference_def)
  have c: "True = (case None :: bool option of None \<Rightarrow> True | Some b \<Rightarrow> b)" by simp
  note a = owns_mapper_requests [OF m r w c f [symmetric], of "''v1''" "''ConfigMap''" 0]
  from a [THEN conjunct1] show ?thesis
    by (simp add: metadata_namespace_def parent_reference_def)
qed

text \<open>
  Claim C7. For an object whose metadata is a mapping with a \<open>name\<close>, the mapper of
  the primary watch (the first watch of a new controller) raises nothing and emits one
  request, whose name is \<open>metadata.name\<close> and whose namespace is
  \<open>metadata.namespace\<close>, \<open>None\<close> when the object has none.
\<close>

theorem primary_mapper_request:
  assumes "py_getitem obj ''metadata'' = Inr (JDict md)"
      and "map_of md ''name'' = Some n"
  shows "watch_mapper (hd (watches (Controller av k f labels ns worker_count wp max_backoff)))
           obj next_id =
         (Inr [\<lparr>name = n, namespace = metadata_namespace md, request_id = next_id\<rparr>],
          Suc next_id) \<and>
         (map_of md ''namespace'' = None \<longrightarrow> metadata_namespace md = JNull)"
  using assms
  by (simp add: Controller_def Watch_def Let_def primary_mapper_def Request_def
      metadata_namespace_def split: option.split)

text \<open>The theorem at a namespaced object and at a cluster-scoped one.\<close>

theorem primary_mapper_request_witness:
  "watch_mapper (hd (watches (example_controller (Returns None)))) example_child 3 =
     (Inr [\<lparr>name = JStr ''child-1'', namespace = JStr ''default'', request_id = 3\<rparr>], 4) \<and>
   watch_mapper (hd (watches (example_controller (Returns None)))) example_node 3 =
     (Inr [\<lparr>name = JStr ''node-1'', namespace = JNull, request_id = 3\<rparr>], 4)"
proof -
  let ?md = "[(''name'', JStr ''child-1''), (''namespace'', JStr ''default''),
              (''ownerReferences'', JList [parent_reference])]"
  let ?nd = "[(''name'', JStr ''node-1'')]"
  have m: "py_getitem example_child ''metadata'' = Inr (JDict ?md)"
    by (simp add: example_child_def)
  have n: "map_of ?md ''name'' = Some (JStr ''child-1'')" by simp
  have m': "py_getitem example_node ''metadata'' = Inr (JDict ?nd)"
    by (simp add: example_node_def)
  have n': "map_of ?nd ''name'' = Some (JStr ''node-1'')" by simp
  note a = primary_mapper_request [OF m n, of "''v1''" "''Foo''" "\<lambda>client request. Returns None"
      None None None None None 3]
  note b = primary_mapper_request [OF m' n', of "''v1''" "''Foo''" "\<lambda>client request. Returns None"
      None None None None None 3]
  from a b show ?thesis
    unfolding example_controller_def by (simp add: metadata_namespace_def)
qed

lemma owns_comprehension_skip:
  assumes "owns_condition av k co ref = Inr False"
  shows "owns_comprehension av k co obj (pre @ ref # post) next_id =
         owns_comprehension av k co obj (pre @ post) next_id"
proof (induction pre arbitrary: next_id)
  case Nil
  show ?case by (simp add: assms)
next
  case (Cons p pre)
  show ?case by (simp add: Cons.IH split: sum.split bool.split prod.split)
qed

lemma owns_condition_not_controller:
  assumes "map_of kvs ''apiVersion'' = Some (JStr av)" and "map_of kvs ''kind'' = Some (JStr k)"
      and "map_of kvs ''controller'' = None \<or> map_of kvs ''controller'' = Some (JBool False)"
  shows "owns_condition av k True (JDict kvs) = Inr False"
  using assms by (auto simp add: owns_condition_def py_eq_str_def)

text \<open>
  Claim C9. For the watch that \<open>owns\<close> registers with \<open>controller_only\<close> left at its
  default: an object whose metadata has no \<open>ownerReferences\<close> key yields no request
  and no error; and an owner reference whose \<open>apiVersion\<close> and \<open>kind\<close> are the
  controller's but whose \<open>controller\<close> key is absent or false is skipped: the mapper
  gives what the comprehension gives over the other references.
\<close>

theorem owns_mapper_skips:
  assumes "py_getitem obj ''metadata'' = Inr (JDict md)"
  shows "(map_of md ''ownerReferences'' = None \<longrightarrow>
            watch_mapper (last (watches (owns self av k None))) obj next_id = (Inr [], next_id)) \<and>
         (map_of md ''ownerReferences'' = Some (JList (pre @ JDict kvs # post)) \<and>
          map_of kvs ''apiVersion'' = Some (JStr (api_version self)) \<and>
          map_of kvs ''kind'' = Some (JStr (kind self)) \<and>
          (map_of kvs ''controller'' = None \<or> map_of kvs ''controller'' = Some (JBool False)) \<longrightarrow>
            watch_mapper (last (watches (owns self av k None))) obj next_id =
              owns_comprehension (api_version self) (kind self) True obj (pre @ post) next_id)"
proof (intro conjI impI)
  assume "map_of md ''ownerReferences'' = None"
  with assms show "watch_mapper (last (watches (owns self av k None))) obj next_id = (Inr [], next_id)"
    by (simp add: owns_watch_mapper owns_mapper_def)
next
  assume h: "map_of md ''ownerReferences'' = Some (JList (pre @ JDict kvs # post)) \<and>
          map_of kvs ''apiVersion'' = Some (JStr (api_version self)) \<and>
          map_of kvs ''kind'' = Some (JStr (kind self)) \<and>
          (map_of kvs ''controller'' = None \<or> map_of kvs ''controller'' = Some (JBool False))"
  then have skip: "owns_condition (api_version self) (kind self) True (JDict kvs) = Inr False"
    by (intro owns_condition_not_controller) (elim conjE, assumption)+
  from h have refs: "map_of md ''ownerReferences'' = Some (JList (pre @ JDict kvs # post))"
    by (rule conjunct1)
  have "owns_mapper (api_version self) (kind self) True obj next_id =
      owns_comprehension (api_version self) (kind self) True obj (pre @ JDict kvs # post) next_id"
    by (rule owns_mapper_list [OF assms disjI2 [OF refs]])
  then show "watch_mapper (last (watches (owns self av k None))) obj next_id =
      owns_comprehension (api_version self) (kind self) True obj (pre @ post) next_id"
    by (simp add: owns_watch_mapper owns_comprehension_skip [OF skip])
qed

text \<open>
  The theorem at an object with no owner references, and at a child whose one reference
  to the controller's resource has no \<open>controller\<close> key.
\<close>

theorem owns_mapper_skips_witness:
  "watch_mapper (last (watches (owns (example_controller (Returns None)) ''v1'' ''ConfigMap'' None)))
     example_node 0 = (Inr [], 0) \<and>
   watch_mapper (last (watches (owns (example_controller (Returns None)) ''v1'' ''ConfigMap'' None)))
     example_plain_child 0 = (Inr [], 0)"
proof -
  let ?c = "example_controller (Returns None)"
  let ?nd = "[(''name'', JStr ''node-1'')]"
  let ?kvs = "[(''apiVersion'', JStr ''v1''), (''kind'', JStr ''Foo''), (''name'', JStr ''parent''),
            (''uid'', JStr ''u-1'')]"
  let ?md = "[(''name'', JStr ''child-2''), (''namespace'', JStr ''default''),
                    (''ownerReferences'', JList [plain_reference])]"
  have m: "py_getitem example_node ''metadata'' = Inr (JDict ?nd)"
    by (simp add: example_node_def)
  have none: "map_of ?nd ''ownerReferences'' = None" by simp
  have m': "py_getitem example_plain_child ''metadata'' = Inr (JDict ?md)"
    by (simp add: example_plain_child_def)
  have h: "map_of ?md ''ownerReferences'' = Some (JList ([] @ JDict ?kvs # [])) \<and>
          map_of ?kvs ''apiVersion'' = Some (JStr (api_version ?c)) \<and>
          map_of ?kvs ''kind'' = Some (JStr (kind ?c)) \<and>
          (map_of ?kvs ''controller'' = None \<or> map_of ?kvs ''controller'' = Some (JBool False))"
    by (simp add: plain_reference_def example_controller_resource)
  note a = owns_mapper_skips [OF m, of ?c "''v1''" "''ConfigMap''" 0, THEN conjunct1, rule_format, OF none]
  note b = owns_mapper_skips [OF m', of ?c "''v1''" "''ConfigMap''" 0 "[]" ?kvs "[]",
      THEN conjunct2, rule_format, OF h]
  from a b show ?thesis by simp
qed

section \<open>Properties of the constructor\<close>

text \<open>
  Claim C10. A pool passed to the constructor is the controller's pool as it is, and the
  controller is the same whatever \<open>worker_count\<close> is passed with it; with no pool
  passed the controller gets \<open>WorkerPool(worker_count)\<close>, of capacity
  \<open>worker_count\<close>, which is 10 when left out.
\<close>

theorem controller_worker_pool:
  "worker_pool (Controller av k f labels ns worker_count (Some p) max_backoff) = p \<and>
   Controller av k f labels ns worker_count (Some p) max_backoff =
     Controller av k f labels ns worker_count' (Some p) max_backoff \<and>
   worker_pool (Controller av k f labels ns (Some n) None max_backoff) = WorkerPool n \<and>
   worker_pool (Controller av k f labels ns None None max_backoff) = WorkerPool 10 \<and>
   capacity (WorkerPool n) = n"
  by (simp add: Controller_def worker_pool_truthy_def WorkerPool_def default_worker_count_def)

text \<open>
  The theorem at a pool of capacity 2 passed together with \<open>worker_count = 3\<close>, and at
  a constructor call with neither.
\<close>

theorem controller_worker_pool_witness:
  "worker_pool (Controller ''v1'' ''Foo'' (\<lambda>(client :: unit) request. Returns None) (None :: unit option)
       None (Some 3) (Some \<lparr>capacity = 2, reserved = [0]\<rparr>) None) =
     \<lparr>capacity = 2, reserved = [0]\<rparr> \<and>
   worker_pool (Controller ''v1'' ''Foo'' (\<lambda>(client :: unit) request. Returns None) (None :: unit option)
       None None None None) =
     \<lparr>capacity = 10, reserved = []\<rparr>"
proof -
  note a = controller_worker_pool [of "''v1''" "''Foo''" "\<lambda>(client :: unit) request. Returns None"
      "None :: unit option" None "Some 3" "\<lparr>capacity = 2, reserved = [0]\<rparr>" None None 3]
  from a [THEN conjunct1] a [THEN conjunct2, THEN conjunct2, THEN conjunct2, THEN conjunct1]
  show ?thesis by (simp add: WorkerPool_def)
qed

section \<open>Properties of the dispatch loop\<close>

lemma snoc_eq_split:
  assumes "ops @ [op] = pre @ x # post"
  shows "(post = [] \<and> pre = ops \<and> x = op) \<or> (\<exists>post'. post = post' @ [op] \<and> ops = pre @ x # post')"
  using assms by (cases post rule: rev_cases) auto

lemma in_order_snoc:
  assumes "in_order ops"
      and "\<And>w. op = Reserve w \<Longrightarrow> \<exists>pre'. ops = pre' @ [HasEligibleRequest True]"
      and "\<And>request attempt. op = Dequeue request attempt \<Longrightarrow>
             \<exists>pre' w. ops = pre' @ [HasEligibleRequest True, Reserve w]"
      and "\<And>w i request attempt. op = SetTask w i request attempt \<Longrightarrow>
             i = worker_id w \<and>
             (\<exists>pre'. ops = pre' @ [HasEligibleRequest True, Reserve w, Dequeue request attempt])"
  shows "in_order (ops @ [op])"
  unfolding in_order_def
proof (intro conjI allI impI)
  fix pre w post
  assume "ops @ [op] = pre @ Reserve w # post"
  from snoc_eq_split [OF this] show "\<exists>pre'. pre = pre' @ [HasEligibleRequest True]"
  proof
    assume "post = [] \<and> pre = ops \<and> Reserve w = op"
    with assms(2) [of w] show ?thesis by simp
  next
    assume "\<exists>post'. post = post' @ [op] \<and> ops = pre @ Reserve w # post'"
    with assms(1) show ?thesis unfolding in_order_def by blast
  qed
next
  fix pre request attempt post
  assume "ops @ [op] = pre @ Dequeue request attempt # post"
  from snoc_eq_split [OF this]
  show "\<exists>pre' w. pre = pre' @ [HasEligibleRequest True, Reserve w]"
  proof
    assume "post = [] \<and> pre = ops \<and> Dequeue request attempt = op"
    with assms(3) [of request attempt] show ?thesis by simp
  next
    assume "\<exists>post'. post = post' @ [op] \<and> ops = pre @ Dequeue request attempt # post'"
    with assms(1) show ?thesis unfolding in_order_def by blast
  qed
next
  fix pre w i request attempt post
  assume eq: "ops @ [op] = pre @ SetTask w i request attempt # post"
  from snoc_eq_split [OF eq]
  have "i = worker_id w \<and>
        (\<exists>pre'. pre = pre' @ [HasEligibleRequest True, Reserve w, Dequeue request attempt])"
  proof
    assume "post = [] \<and> pre = ops \<and> SetTask w i request attempt = op"
    with assms(4) [of w i request attempt] show ?thesis by simp
  next
    assume "\<exists>post'. post = post' @ [op] \<and> ops = pre @ SetTask w i request attempt # post'"
    with assms(1) show ?thesis unfolding in_order_def by blast
  qed
  then show "i = worker_id w"
    and "\<exists>pre'. pre = pre' @ [HasEligibleRequest True, Reserve w, Dequeue request attempt]"
    by simp_all
qed

lemma in_order_Nil: "in_order []"
  by (simp add: in_order_def)

lemma dispatch_step_invariant:
  assumes "in_order ops" and "\<exists>pre. ops = pre @ done_in_iteration (pc s)"
      and "dispatch_step env s = (op, s')"
  shows "in_order (ops @ [op]) \<and> (\<exists>pre. ops @ [op] = pre @ done_in_iteration (pc s'))"
proof (cases "pc s")
  case AtPoll
  with assms(3) have op: "op = HasEligibleRequest (eligible_answer env (polls s))"
    and pc': "pc s' = (if \<not> eligible_answer env (polls s) then AtSleep else AtReserve)"
    by (auto simp add: dispatch_step_def Let_def)
  from assms(1) op have "in_order (ops @ [op])" by (intro in_order_snoc) simp_all
  moreover from op pc' have "\<exists>pre. ops @ [op] = pre @ done_in_iteration (pc s')" by auto
  ultimately show ?thesis by simp
next
  case AtSleep
  with assms(3) have op: "op = Sleep" and pc': "pc s' = AtPoll"
    by (auto simp add: dispatch_step_def)
  from assms(1) op have "in_order (ops @ [op])" by (intro in_order_snoc) simp_all
  moreover from pc' have "\<exists>pre. ops @ [op] = pre @ done_in_iteration (pc s')" by simp
  ultimately show ?thesis by simp
next
  case AtReserve
  with assms(3) have op: "op = Reserve (reserve_answer env (iterations s))"
    and pc': "pc s' = AtDequeue (reserve_answer env (iterations s))"
    by (auto simp add: dispatch_step_def Let_def)
  from assms(2) AtReserve obtain pre where pre: "ops = pre @ [HasEligibleRequest True]" by auto
  from assms(1) op pre have "in_order (ops @ [op])" by (intro in_order_snoc) simp_all
  moreover from op pc' pre have "\<exists>pre. ops @ [op] = pre @ done_in_iteration (pc s')" by simp
  ultimately show ?thesis by simp
next
  case (AtDequeue w)
  obtain request attempt where d: "dequeue_answer env (iterations s) = (request, attempt)"
    by (cases "dequeue_answer env (iterations s)")
  with assms(3) AtDequeue have op: "op = Dequeue request attempt"
    and pc': "pc s' = AtSetTask w request attempt"
    by (auto simp add: dispatch_step_def)
  from assms(2) AtDequeue obtain pre where pre: "ops = pre @ [HasEligibleRequest True, Reserve w]"
    by auto
  from assms(1) op pre have "in_order (ops @ [op])" by (intro in_order_snoc) simp_all
  moreover from op pc' pre have "\<exists>pre. ops @ [op] = pre @ done_in_iteration (pc s')" by simp
  ultimately show ?thesis by simp
next
  case (AtSetTask w request attempt)
  with assms(3) have op: "op = SetTask w (worker_id w) request attempt" and pc': "pc s' = AtPoll"
    by (auto simp add: dispatch_step_def)
  from assms(2) AtSetTask obtain pre
    where pre: "ops = pre @ [HasEligibleRequest True, Reserve w, Dequeue request attempt]"
    by auto
  from assms(1) op pre have "in_order (ops @ [op])" by (intro in_order_snoc) simp_all
  moreover from pc' have "\<exists>pre. ops @ [op] = pre @ done_in_iteration (pc s')" by simp
  ultimately show ?thesis by simp
qed

lemma dispatch_invariant:
  "in_order (fst (dispatch env n)) \<and>
   (\<exists>pre. fst (dispatch env n) = pre @ done_in_iteration (pc (snd (dispatch env n))))"
proof (induction n)
  case 0
  show ?case by (simp add: in_order_Nil dispatch_init_def)
next
  case (Suc n)
  obtain ops s where run: "dispatch env n = (ops, s)" by (cases "dispatch env n")
  obtain op s' where step: "dispatch_step env s = (op, s')" by (cases "dispatch_step env s")
  from Suc run have "in_order ops" and "\<exists>pre. ops = pre @ done_in_iteration (pc s)" by simp_all
  from dispatch_step_invariant [OF this step] run step show ?case by simp
qed

lemma successions_snoc:
  assumes "successions ops" and "\<And>pre l. ops = pre @ [l] \<Longrightarrow> may_follow l op"
  shows "successions (ops @ [op])"
  unfolding successions_def
proof (intro allI impI)
  fix pre x y post
  assume eq: "ops @ [op] = pre @ x # y # post"
  show "may_follow x y"
  proof (cases post rule: rev_cases)
    case Nil
    with eq have "ops = pre @ [x]" and "y = op" by simp_all
    with assms(2) show ?thesis by simp
  next
    case (snoc post' z)
    with eq have "ops = pre @ x # y # post'" by simp
    with assms(1) show ?thesis unfolding successions_def by blast
  qed
qed

lemma successions_Nil: "successions []"
  by (simp add: successions_def)

lemma dispatch_step_successions:
  assumes "successions ops"
      and "\<exists>pre. ops = pre @ done_in_iteration (pc s)"
      and "pc s = AtPoll \<longrightarrow> ops = [] \<or> (\<exists>pre. ops = pre @ [Sleep]) \<or>
             (\<exists>pre w i request attempt. ops = pre @ [SetTask w i request attempt])"
      and "dispatch_step env s = (op, s')"
  shows "successions (ops @ [op]) \<and>
         (pc s' = AtPoll \<longrightarrow> ops @ [op] = [] \<or> (\<exists>pre. ops @ [op] = pre @ [Sleep]) \<or>
             (\<exists>pre w i request attempt. ops @ [op] = pre @ [SetTask w i request attempt]))"
proof (cases "pc s")
  case AtPoll
  with assms(4) have op: "op = HasEligibleRequest (eligible_answer env (polls s))"
    and pc': "pc s' \<noteq> AtPoll"
    by (auto simp add: dispatch_step_def Let_def split: if_splits)
  from assms(3) AtPoll have "\<And>pre l. ops = pre @ [l] \<Longrightarrow> may_follow l op"
    by (auto simp add: op)
  with assms(1) have "successions (ops @ [op])" by (rule successions_snoc)
  with pc' show ?thesis by simp
next
  case AtSleep
  with assms(4) have op: "op = Sleep" by (auto simp add: dispatch_step_def)
  from assms(2) AtSleep have "\<And>pre l. ops = pre @ [l] \<Longrightarrow> may_follow l op"
    by (auto simp add: op)
  with assms(1) have "successions (ops @ [op])" by (rule successions_snoc)
  with op show ?thesis by simp
next
  case AtReserve
  with assms(4) have op: "op = Reserve (reserve_answer env (iterations s))"
    and pc': "pc s' \<noteq> AtPoll"
    by (auto simp add: dispatch_step_def Let_def)
  from assms(2) AtReserve have "\<And>pre l. ops = pre @ [l] \<Longrightarrow> may_follow l op"
    by (auto simp add: op)
  with assms(1) have "successions (ops @ [op])" by (rule successions_snoc)
  with pc' show ?thesis by simp
next
  case (AtDequeue w)
  obtain request attempt where d: "dequeue_answer env (iterations s) = (request, attempt)"
    by (cases "dequeue_answer env (iterations s)")
  with assms(4) AtDequeue have op: "op = Dequeue request attempt" and pc': "pc s' \<noteq> AtPoll"
    by (auto simp add: dispatch_step_def)
  from assms(2) AtDequeue have "\<And>pre l. ops = pre @ [l] \<Longrightarrow> may_follow l op"
    by (auto simp add: op)
  with assms(1) have "successions (ops @ [op])" by (rule successions_snoc)
  with pc' show ?thesis by simp
next
  case (AtSetTask w request attempt)
  with assms(4) have op: "op = SetTask w (worker_id w) request attempt"
    by (auto simp add: dispatch_step_def)
  from assms(2) AtSetTask have "\<And>pre l. ops = pre @ [l] \<Longrightarrow> may_follow l op"
    by (auto simp add: op)
  with assms(1) have "successions (ops @ [op])" by (rule successions_snoc)
  with op show ?thesis by simp
qed

lemma dispatch_successions:
  "successions (fst (dispatch env n)) \<and>
   (pc (snd (dispatch env n)) = AtPoll \<longrightarrow>
      fst (dispatch env n) = [] \<or> (\<exists>pre. fst (dispatch env n) = pre @ [Sleep]) \<or>
      (\<exists>pre w i request attempt. fst (dispatch env n) = pre @ [SetTask w i request attempt]))"
proof (induction n)
  case 0
  show ?case by (simp add: successions_Nil)
next
  case (Suc n)
  obtain ops s where run: "dispatch env n = (ops, s)" by (cases "dispatch env n")
  obtain op s' where step: "dispatch_step env s = (op, s')" by (cases "dispatch_step env s")
  from dispatch_invariant [of env n] run
  have suffix: "\<exists>pre. ops = pre @ done_in_iteration (pc s)" by simp
  from Suc run have "successions ops"
    and "pc s = AtPoll \<longrightarrow> ops = [] \<or> (\<exists>pre. ops = pre @ [Sleep]) \<or>
             (\<exists>pre w i request attempt. ops = pre @ [SetTask w i request attempt])"
    by simp_all
  from dispatch_step_successions [OF this(1) suffix this(2) step] run step
  show ?case by simp
qed

lemma dispatch_length: "length (fst (dispatch env n)) = n"
  by (induction n) (auto split: prod.split)

lemma poll_answers_snoc:
  "poll_answers (ops @ [op]) =
     poll_answers ops @ (case op of HasEligibleRequest b \<Rightarrow> [b] | _ \<Rightarrow> [])"
  by (simp add: poll_answers_def)

lemma reservations_snoc:
  "reservations (ops @ [op]) = reservations ops @ (case op of Reserve w \<Rightarrow> [w] | _ \<Rightarrow> [])"
  by (simp add: reservations_def)

lemma dequeues_snoc:
  "dequeues (ops @ [op]) =
     dequeues ops @ (case op of Dequeue request attempt \<Rightarrow> [(request, attempt)] | _ \<Rightarrow> [])"
  by (simp add: dequeues_def)

lemma tasks_set_snoc:
  "tasks_set (ops @ [op]) =
     tasks_set ops @ (case op of SetTask w i request attempt \<Rightarrow> [(w, request, attempt)] | _ \<Rightarrow> [])"
  by (simp add: tasks_set_def)

lemma dispatch_step_answers:
  assumes "poll_answers ops = map (eligible_answer env) [0..<polls s]"
      and "reservations ops = map (reserve_answer env) [0..<iterations s + reserved_now (pc s)]"
      and "dequeues ops = map (dequeue_answer env) [0..<iterations s + dequeued_now (pc s)]"
      and "tasks_set ops =
             map (\<lambda>i. (reserve_answer env i, dequeue_answer env i)) [0..<iterations s]"
      and "\<forall>w request attempt. pc s = AtSetTask w request attempt \<longrightarrow>
             w = reserve_answer env (iterations s) \<and>
             (request, attempt) = dequeue_answer env (iterations s)"
      and "\<forall>w. pc s = AtDequeue w \<longrightarrow> w = reserve_answer env (iterations s)"
      and "dispatch_step env s = (op, s')"
  shows "poll_answers (ops @ [op]) = map (eligible_answer env) [0..<polls s'] \<and>
         reservations (ops @ [op]) =
           map (reserve_answer env) [0..<iterations s' + reserved_now (pc s')] \<and>
         dequeues (ops @ [op]) =
           map (dequeue_answer env) [0..<iterations s' + dequeued_now (pc s')] \<and>
         tasks_set (ops @ [op]) =
           map (\<lambda>i. (reserve_answer env i, dequeue_answer env i)) [0..<iterations s'] \<and>
         (\<forall>w request attempt. pc s' = AtSetTask w request attempt \<longrightarrow>
             w = reserve_answer env (iterations s') \<and>
             (request, attempt) = dequeue_answer env (iterations s')) \<and>
         (\<forall>w. pc s' = AtDequeue w \<longrightarrow> w = reserve_answer env (iterations s'))"
proof (cases "pc s")
  case AtPoll
  with assms show ?thesis
    by (auto simp add: dispatch_step_def Let_def poll_answers_snoc reservations_snoc
        dequeues_snoc tasks_set_snoc split: if_splits)
next
  case AtSleep
  with assms show ?thesis
    by (auto simp add: dispatch_step_def poll_answers_snoc reservations_snoc dequeues_snoc
        tasks_set_snoc)
next
  case AtReserve
  with assms show ?thesis
    by (auto simp add: dispatch_step_def Let_def poll_answers_snoc reservations_snoc
        dequeues_snoc tasks_set_snoc)
next
  case (AtDequeue w)
  obtain request attempt where d: "dequeue_answer env (iterations s) = (request, attempt)"
    by (cases "dequeue_answer env (iterations s)")
  with AtDequeue assms show ?thesis
    by (auto simp add: dispatch_step_def poll_answers_snoc reservations_snoc dequeues_snoc
        tasks_set_snoc)
next
  case (AtSetTask w request attempt)
  with assms show ?thesis
    by (auto simp add: dispatch_step_def poll_answers_snoc reservations_snoc dequeues_snoc
        tasks_set_snoc)
qed

lemma dispatch_answers:
  "poll_answers (fst (dispatch env n)) =
     map (eligible_answer env) [0..<polls (snd (dispatch env n))] \<and>
   reservations (fst (dispatch env n)) =
     map (reserve_answer env)
       [0..<iterations (snd (dispatch env n)) + reserved_now (pc (snd (dispatch env n)))] \<and>
   dequeues (fst (dispatch env n)) =
     map (dequeue_answer env)
       [0..<iterations (snd (dispatch env n)) + dequeued_now (pc (snd (dispatch env n)))] \<and>
   tasks_set (fst (dispatch env n)) =
     map (\<lambda>i. (reserve_answer env i, dequeue_answer env i))
       [0..<iterations (snd (dispatch env n))] \<and>
   (\<forall>w request attempt. pc (snd (dispatch env n)) = AtSetTask w request attempt \<longrightarrow>
      w = reserve_answer env (iterations (snd (dispatch env n))) \<and>
      (request, attempt) = dequeue_answer env (iterations (snd (dispatch env n)))) \<and>
   (\<forall>w. pc (snd (dispatch env n)) = AtDequeue w \<longrightarrow>
      w = reserve_answer env (iterations (snd (dispatch env n))))"
proof (induction n)
  case 0
  show ?case
    by (simp add: dispatch_init_def poll_answers_def reservations_def dequeues_def tasks_set_def)
next
  case (Suc n)
  obtain ops s where run: "dispatch env n = (ops, s)" by (cases "dispatch env n")
  obtain op s' where step: "dispatch_step env s = (op, s')" by (cases "dispatch_step env s")
  from Suc run have ih:
    "poll_answers ops = map (eligible_answer env) [0..<polls s]"
    "reservations ops = map (reserve_answer env) [0..<iterations s + reserved_now (pc s)]"
    "dequeues ops = map (dequeue_answer env) [0..<iterations s + dequeued_now (pc s)]"
    "tasks_set ops = map (\<lambda>i. (reserve_answer env i, dequeue_answer env i)) [0..<iterations s]"
    "\<forall>w request attempt. pc s = AtSetTask w request attempt \<longrightarrow>
       w = reserve_answer env (iterations s) \<and>
       (request, attempt) = dequeue_answer env (iterations s)"
    "\<forall>w. pc s = AtDequeue w \<longrightarrow> w = reserve_answer env (iterations s)"
    by simp_all
  from dispatch_step_answers [OF ih step] run step show ?case by simp
qed

lemma map_upt_length:
  assumes "xs = map f [0..<m]"
  shows "xs = map f [0..<length xs]"
  using assms by simp

lemma dispatch_first:
  "fst (dispatch env (Suc n)) = HasEligibleRequest (eligible_answer env 0) # tl (fst (dispatch env (Suc n)))"
proof (induction n)
  case 0
  show ?case by (simp add: dispatch_step_def dispatch_init_def Let_def)
next
  case (Suc n)
  obtain ops s where run: "dispatch env (Suc n) = (ops, s)" by (cases "dispatch env (Suc n)")
  obtain op s' where step: "dispatch_step env s = (op, s')" by (cases "dispatch_step env s")
  from Suc run have "ops = HasEligibleRequest (eligible_answer env 0) # tl ops" by simp
  then obtain rest where "ops = HasEligibleRequest (eligible_answer env 0) # rest" ..
  then have "ops @ [op] = HasEligibleRequest (eligible_answer env 0) # tl (ops @ [op])" by simp
  moreover have "fst (dispatch env (Suc (Suc n))) = ops @ [op]"
    using run step by simp
  ultimately show ?case by simp
qed

text \<open>
  Claim C5. \<open>_dispatch\<close> never stalls: after \<open>n\<close> operations it has done \<open>n\<close>.
  It starts with a call of \<open>has_eligible_request\<close>, and every operation is followed
  by the one the loop prescribes: a poll that answered false by the sleep and the sleep
  by the next poll; a poll that answered true by the reservation, the reservation by the
  \<open>dequeue\<close>, the \<open>dequeue\<close> by \<open>set_task\<close>, and \<open>set_task\<close> by the first poll
  of the next iteration. So every reservation comes right after an answer true, every
  \<open>dequeue\<close> right after a reservation that came right after such an answer, and every
  \<open>set_task\<close> right after the \<open>dequeue\<close>, handing the request and attempt dequeued
  to the worker reserved in the same iteration. The answers in the trace are those the
  queue and the pool gave, in the order of the calls, and the \<open>i\<close>-th task set is the
  \<open>i\<close>-th request dequeued on the \<open>i\<close>-th worker reserved.
\<close>

theorem dispatch_order:
  "length (dispatch_trace env n) = n \<and>
   (\<forall>op post. dispatch_trace env n = op # post \<longrightarrow>
      op = HasEligibleRequest (eligible_answer env 0)) \<and>
   (\<forall>pre x y post. dispatch_trace env n = pre @ x # y # post \<longrightarrow> may_follow x y) \<and>
   (\<forall>pre w post. dispatch_trace env n = pre @ Reserve w # post \<longrightarrow>
      (\<exists>pre'. pre = pre' @ [HasEligibleRequest True])) \<and>
   (\<forall>pre request attempt post. dispatch_trace env n = pre @ Dequeue request attempt # post \<longrightarrow>
      (\<exists>pre' w. pre = pre' @ [HasEligibleRequest True, Reserve w])) \<and>
   (\<forall>pre w i request attempt post.
      dispatch_trace env n = pre @ SetTask w i request attempt # post \<longrightarrow>
      i = worker_id w \<and>
      (\<exists>pre'. pre = pre' @ [HasEligibleRequest True, Reserve w, Dequeue request attempt])) \<and>
   poll_answers (dispatch_trace env n) =
     map (eligible_answer env) [0..<length (poll_answers (dispatch_trace env n))] \<and>
   reservations (dispatch_trace env n) =
     map (reserve_answer env) [0..<length (reservations (dispatch_trace env n))] \<and>
   dequeues (dispatch_trace env n) =
     map (dequeue_answer env) [0..<length (dequeues (dispatch_trace env n))] \<and>
   tasks_set (dispatch_trace env n) =
     map (\<lambda>i. (reserve_answer env i, dequeue_answer env i))
       [0..<length (tasks_set (dispatch_trace env n))]"
proof (intro conjI)
  show "length (dispatch_trace env n) = n"
    by (simp add: dispatch_trace_def dispatch_length)
  show "\<forall>op post. dispatch_trace env n = op # post \<longrightarrow>
      op = HasEligibleRequest (eligible_answer env 0)"
  proof (cases n)
    case 0
    then show ?thesis by (simp add: dispatch_trace_def)
  next
    case (Suc m)
    with dispatch_first [of env m] show ?thesis
      unfolding dispatch_trace_def by (metis list.inject)
  qed
  show "\<forall>pre x y post. dispatch_trace env n = pre @ x # y # post \<longrightarrow> may_follow x y"
    using dispatch_successions [of env n] unfolding successions_def dispatch_trace_def by blast
  show "\<forall>pre w post. dispatch_trace env n = pre @ Reserve w # post \<longrightarrow>
      (\<exists>pre'. pre = pre' @ [HasEligibleRequest True])"
    using dispatch_invariant [of env n] unfolding in_order_def dispatch_trace_def by blast
  show "\<forall>pre request attempt post. dispatch_trace env n = pre @ Dequeue request attempt # post \<longrightarrow>
      (\<exists>pre' w. pre = pre' @ [HasEligibleRequest True, Reserve w])"
    using dispatch_invariant [of env n] unfolding in_order_def dispatch_trace_def by blast
  show "\<forall>pre w i request attempt post.
      dispatch_trace env n = pre @ SetTask w i request attempt # post \<longrightarrow>
      i = worker_id w \<and>
      (\<exists>pre'. pre = pre' @ [HasEligibleRequest True, Reserve w, Dequeue request attempt])"
    using dispatch_invariant [of env n] unfolding in_order_def dispatch_trace_def by blast
  show "poll_answers (dispatch_trace env n) =
     map (eligible_answer env) [0..<length (poll_answers (dispatch_trace env n))]"
    unfolding dispatch_trace_def
    by (rule map_upt_length) (rule dispatch_answers [THEN conjunct1])
  show "reservations (dispatch_trace env n) =
     map (reserve_answer env) [0..<length (reservations (dispatch_trace env n))]"
    unfolding dispatch_trace_def
    by (rule map_upt_length) (rule dispatch_answers [THEN conjunct2, THEN conjunct1])
  show "dequeues (dispatch_trace env n) =
     map (dequeue_answer env) [0..<length (dequeues (dispatch_trace env n))]"
    unfolding dispatch_trace_def
    by (rule map_upt_length) (rule dispatch_answers [THEN conjunct2, THEN conjunct2, THEN conjunct1])
  show "tasks_set (dispatch_trace env n) =
     map (\<lambda>i. (reserve_answer env i, dequeue_answer env i))
       [0..<length (tasks_set (dispatch_trace env n))]"
    unfolding dispatch_trace_def
    by (rule map_upt_length)
      (rule dispatch_answers [THEN conjunct2, THEN conjunct2, THEN conjunct2, THEN conjunct1])
qed

lemma example_trace:
  "dispatch_trace example_env 6 =
     [HasEligibleRequest False, Sleep, HasEligibleRequest True, Reserve \<lparr>worker_id = 0\<rparr>,
      Dequeue example_request 0, SetTask \<lparr>worker_id = 0\<rparr> 0 example_request 0]"
  by (simp add: dispatch_trace_def eval_nat_numeral dispatch_step_def dispatch_init_def Let_def
      example_env_def)

text \<open>
  The theorem at the first six operations over a queue that has nothing eligible at the
  first poll: poll, sleep, poll, reserve, dequeue, set the task.
\<close>

theorem dispatch_order_witness:
  "dispatch_trace example_env 6 =
     [HasEligibleRequest False, Sleep, HasEligibleRequest True, Reserve \<lparr>worker_id = 0\<rparr>,
      Dequeue example_request 0, SetTask \<lparr>worker_id = 0\<rparr> 0 example_request 0] \<and>
   HasEligibleRequest False = HasEligibleRequest (eligible_answer example_env 0) \<and>
   may_follow (HasEligibleRequest True) (Reserve \<lparr>worker_id = 0\<rparr>) \<and>
   may_follow (Dequeue example_request 0) (SetTask \<lparr>worker_id = 0\<rparr> 0 example_request 0) \<and>
   (\<exists>pre'. [HasEligibleRequest False, Sleep, HasEligibleRequest True] =
      pre' @ [HasEligibleRequest True]) \<and>
   (\<exists>pre' w. [HasEligibleRequest False, Sleep, HasEligibleRequest True, Reserve \<lparr>worker_id = 0\<rparr>] =
      pre' @ [HasEligibleRequest True, Reserve w]) \<and>
   (\<exists>pre'. [HasEligibleRequest False, Sleep, HasEligibleRequest True, Reserve \<lparr>worker_id = 0\<rparr>,
             Dequeue example_request 0] =
      pre' @ [HasEligibleRequest True, Reserve \<lparr>worker_id = 0\<rparr>, Dequeue example_request 0])"
proof -
  note order = dispatch_order [of example_env 6]
  note first = order [THEN conjunct2, THEN conjunct1]
  note succ = order [THEN conjunct2, THEN conjunct2, THEN conjunct1]
  note before = order [THEN conjunct2, THEN conjunct2, THEN conjunct2]
  have h: "dispatch_trace example_env 6 =
      HasEligibleRequest False # [Sleep, HasEligibleRequest True, Reserve \<lparr>worker_id = 0\<rparr>,
        Dequeue example_request 0, SetTask \<lparr>worker_id = 0\<rparr> 0 example_request 0]"
    by (simp add: example_trace)
  have p: "dispatch_trace example_env 6 =
      [HasEligibleRequest False, Sleep] @ HasEligibleRequest True # Reserve \<lparr>worker_id = 0\<rparr>
        # [Dequeue example_request 0, SetTask \<lparr>worker_id = 0\<rparr> 0 example_request 0]"
    by (simp add: example_trace)
  have q: "dispatch_trace example_env 6 =
      [HasEligibleRequest False, Sleep, HasEligibleRequest True, Reserve \<lparr>worker_id = 0\<rparr>]
        @ Dequeue example_request 0 # SetTask \<lparr>worker_id = 0\<rparr> 0 example_request 0 # []"
    by (simp add: example_trace)
  have r: "dispatch_trace example_env 6 =
      [HasEligibleRequest False, Sleep, HasEligibleRequest True] @ Reserve \<lparr>worker_id = 0\<rparr>
        # [Dequeue example_request 0, SetTask \<lparr>worker_id = 0\<rparr> 0 example_request 0]"
    by (simp add: example_trace)
  have d: "dispatch_trace example_env 6 =
      [HasEligibleRequest False, Sleep, HasEligibleRequest True, Reserve \<lparr>worker_id = 0\<rparr>]
        @ Dequeue example_request 0 # [SetTask \<lparr>worker_id = 0\<rparr> 0 example_request 0]"
    by (simp add: example_trace)
  have t: "dispatch_trace example_env 6 =
      [HasEligibleRequest False, Sleep, HasEligibleRequest True, Reserve \<lparr>worker_id = 0\<rparr>,
       Dequeue example_request 0] @ SetTask \<lparr>worker_id = 0\<rparr> 0 example_request 0 # []"
    by (simp add: example_trace)
  from example_trace
    first [rule_format, OF h]
    succ [rule_format, OF p]
    succ [rule_format, OF q]
    before [THEN conjunct1, rule_format, OF r]
    before [THEN conjunct2, THEN conjunct1, rule_format, OF d]
    before [THEN conjunct2, THEN conjunct2, THEN conjunct1, rule_format, OF t, THEN conjunct2]
  show ?thesis by (intro conjI)
qed

end
